theory Spec2Isabelle
  imports Main "HOL-Library.Sublist"
begin

section \<open>Strings and the string primitives of the source\<close>

text \<open>
  JavaScript strings are modelled as \<^typ>\<open>string\<close>: lists of 8-bit characters. Paths and
  patterns are compared code unit by code unit, so nothing below depends on the width of a
  code unit, except that of the line terminators only LF and CR are representable.
\<close>

text \<open>\<^verbatim>\<open>s.includes(pat)\<close>: \<open>pat\<close> occurs in \<open>s\<close> as a contiguous piece.\<close>

fun str_includes :: "string \<Rightarrow> string \<Rightarrow> bool" where
  "str_includes [] pat = (pat = [])"
| "str_includes (c # s) pat = (prefix pat (c # s) \<or> str_includes s pat)"

text \<open>\<^verbatim>\<open>s.endsWith(ext)\<close>.\<close>

definition endsWith :: "string \<Rightarrow> string \<Rightarrow> bool" where
  "endsWith s ext = suffix ext s"

text \<open>
  \<^verbatim>\<open>s.replace(/\*\*/g, r)\<close>: scanning from the left, every non-overlapping pair of stars
  becomes \<open>r\<close>.
\<close>

fun replace_star2 :: "string \<Rightarrow> string \<Rightarrow> string" where
  "replace_star2 r (a # b # s) =
     (if a = CHR ''*'' \<and> b = CHR ''*'' then r @ replace_star2 r s
      else a # replace_star2 r (b # s))"
| "replace_star2 r s = s"

text \<open>\<^verbatim>\<open>s.replace(/\*/g, r)\<close>: every star becomes \<open>r\<close>.\<close>

fun replace_star :: "string \<Rightarrow> string \<Rightarrow> string" where
  "replace_star r [] = []"
| "replace_star r (c # s) =
     (if c = CHR ''*'' then r @ replace_star r s else c # replace_star r s)"

text \<open>
  \<^verbatim>\<open>s.replace(pat, '')\<close> with a string \<open>pat\<close>: the first occurrence of \<open>pat\<close> is
  removed (an empty \<open>pat\<close> occurs at position 0 and removing it changes nothing).
\<close>

fun remove_first :: "string \<Rightarrow> string \<Rightarrow> string" where
  "remove_first pat [] = []"
| "remove_first pat (c # s) =
     (if prefix pat (c # s) then drop (length pat) (c # s) else c # remove_first pat s)"

text \<open>\<^verbatim>\<open>s.replace(/^\//, '')\<close>: one leading slash is dropped.\<close>

fun strip_leading_slash :: "string \<Rightarrow> string" where
  "strip_leading_slash [] = []"
| "strip_leading_slash (c # s) = (if c = CHR ''/'' then s else c # s)"

section \<open>The regular expressions the pattern translation produces\<close>

text \<open>
  \<^verbatim>\<open>new RegExp(src)\<close> is the JavaScript engine's, not the repository's. The fragment that
  the translation of a glob produces is modelled here: a sequence of items, each a single
  character class or a starred one, where a class is \<open>.\<close>, \<open>[^/]\<close> or a literal pattern
  character. A source text with any other syntax character is outside the fragment; what
  the engine does with it (a SyntaxError, or a match by operators not modelled) is the
  parameter \<open>rx\<close> of \<open>RegExp_test\<close> below, over which every theorem is universal.
\<close>

datatype js_error = SyntaxError | ReferenceError | FsError

datatype cls = AnyChar | NotSlash | Lit char

datatype tok = Atom cls | StarTok

datatype item = One cls | Star cls

type_synonym regex = "item list"

text \<open>The syntax characters of a pattern: every other character stands for itself.\<close>

definition syntax_char :: "char \<Rightarrow> bool" where
  "syntax_char c = (c \<in> set ''^$.*+?()[]{}|'' \<or> c = CHR 0x5C)"

fun RegExp_lex :: "string \<Rightarrow> tok list option" where
  "RegExp_lex [] = Some []"
| "RegExp_lex (c # s) =
     (if c = CHR ''*'' then map_option ((#) StarTok) (RegExp_lex s)
      else if c = CHR ''.'' then map_option ((#) (Atom AnyChar)) (RegExp_lex s)
      else if c = CHR ''['' then
        (case s of
           a # b # d # r \<Rightarrow>
             if a = CHR ''^'' \<and> b = CHR ''/'' \<and> d = CHR '']''
             then map_option ((#) (Atom NotSlash)) (RegExp_lex r) else None
         | _ \<Rightarrow> None)
      else if syntax_char c then None
      else map_option ((#) (Atom (Lit c))) (RegExp_lex s))"

text \<open>A star quantifies the atom before it; a star with nothing to repeat is an error.\<close>

fun RegExp_items :: "tok list \<Rightarrow> regex option" where
  "RegExp_items [] = Some []"
| "RegExp_items (Atom a # StarTok # ts) = map_option ((#) (Star a)) (RegExp_items ts)"
| "RegExp_items (Atom a # ts) = map_option ((#) (One a)) (RegExp_items ts)"
| "RegExp_items (StarTok # ts) = None"

definition RegExp_parse :: "string \<Rightarrow> regex option" where
  "RegExp_parse src = (case RegExp_lex src of None \<Rightarrow> None | Some ts \<Rightarrow> RegExp_items ts)"

text \<open>
  Which characters a class accepts. The dot accepts everything but a line terminator; a
  negated class accepts line terminators too.
\<close>

fun cls_accepts :: "cls \<Rightarrow> char \<Rightarrow> bool" where
  "cls_accepts AnyChar c = (c \<noteq> CHR 0x0A \<and> c \<noteq> CHR 0x0D)"
| "cls_accepts NotSlash c = (c \<noteq> CHR ''/'')"
| "cls_accepts (Lit d) c = (c = d)"

text \<open>
  \<open>match_here re s\<close>: the expression matches a prefix of \<open>s\<close>. There are no captures or
  back-references in the fragment, so whether the backtracking matcher finds a match
  does not depend on greediness.
\<close>

fun match_here :: "regex \<Rightarrow> string \<Rightarrow> bool" where
  "match_here [] s = True"
| "match_here (One a # re) [] = False"
| "match_here (One a # re) (c # s) = (cls_accepts a c \<and> match_here re s)"
| "match_here (Star a # re) [] = match_here re []"
| "match_here (Star a # re) (c # s) =
     (match_here re (c # s) \<or> (cls_accepts a c \<and> match_here (Star a # re) s))"

text \<open>
  \<^verbatim>\<open>regex.test(s)\<close> for an expression without flags: the search starts at index 0 and
  succeeds when the expression matches at some position, the end of the string included.
\<close>

fun regex_test :: "regex \<Rightarrow> string \<Rightarrow> bool" where
  "regex_test re [] = match_here re []"
| "regex_test re (c # s) = (match_here re (c # s) \<or> regex_test re s)"

definition RegExp_test ::
  "(string \<Rightarrow> string \<Rightarrow> js_error + bool) \<Rightarrow> string \<Rightarrow> string \<Rightarrow> js_error + bool" where
  "RegExp_test rx src s =
     (case RegExp_parse src of Some re \<Rightarrow> Inr (regex_test re s) | None \<Rightarrow> rx src s)"

section \<open>PathFilter: shouldIgnore and shouldWatch\<close>

text \<open>The callback of \<^verbatim>\<open>ignorePatterns.some(...)\<close>: one pattern against the path.\<close>

definition pattern_matches ::
  "(string \<Rightarrow> string \<Rightarrow> js_error + bool) \<Rightarrow> string \<Rightarrow> string \<Rightarrow> js_error + bool" where
  "pattern_matches rx filePath pattern =
     (if str_includes pattern ''**'' then
        RegExp_test rx (replace_star ''[^/]*'' (replace_star2 ''.*'' pattern)) filePath
      else if str_includes pattern ''*'' then
        RegExp_test rx (replace_star ''.*'' pattern) filePath
      else Inr (str_includes filePath pattern))"

text \<open>
  \<^verbatim>\<open>some\<close> visits the patterns in order and stops at the first that matches; an exception
  of the callback ends the call.
\<close>

fun shouldIgnore ::
  "(string \<Rightarrow> string \<Rightarrow> js_error + bool) \<Rightarrow> string \<Rightarrow> string list \<Rightarrow> js_error + bool" where
  "shouldIgnore rx filePath [] = Inr False"
| "shouldIgnore rx filePath (p # ps) =
     (case pattern_matches rx filePath p of
        Inl e \<Rightarrow> Inl e
      | Inr True \<Rightarrow> Inr True
      | Inr False \<Rightarrow> shouldIgnore rx filePath ps)"

definition shouldWatch :: "string \<Rightarrow> string list \<Rightarrow> bool" where
  "shouldWatch filePath watchExtensions =
     (if watchExtensions = [] then True
      else list_ex (\<lambda>ext. endsWith filePath ext) watchExtensions)"

section \<open>The runtime the supervisor runs on: clock, timers, child processes\<close>

text \<open>
  The module is single-threaded: every callback runs to completion on one event loop. The
  model is the module's variables together with the part of the runtime they act on: a
  logical clock in milliseconds, the pending timers, the child-process objects, and a log
  of what was done to the operating system (processes spawned, signals delivered).
  Console output is not modelled.
\<close>

datatype signal = SIGTERM | SIGKILL | OtherSignal string

record options =
  debounceMs :: nat
  ignorePatterns :: "string list"
  watchExtensions :: "string list"
  verbose :: bool
  clear :: bool

definition DEFAULT_CONFIG :: options where
  "DEFAULT_CONFIG =
     \<lparr>debounceMs = 300,
      ignorePatterns = [''node_modules/**'', ''.git/**'', ''*.log'', ''dist/**'', ''build/**'',
        ''coverage/**'', ''.nyc_output/**'', ''*.tmp'', ''*.temp''],
      watchExtensions = [''.js'', ''.mjs'', ''.json'', ''.ts'', ''.jsx'', ''.tsx''],
      verbose = False, clear = True\<rparr>"

text \<open>The two closures the module hands to \<^verbatim>\<open>setTimeout\<close>.\<close>

datatype callback = ForceKill | Restart string "string list" options

text \<open>
  A \<^verbatim>\<open>ChildProcess\<close> object: \<open>killed\<close> is the object's property of that name, which
  \<^verbatim>\<open>kill()\<close> sets once a signal has been delivered (it does not say that the process has
  ended); \<open>running\<close> says that the process has not yet been reported as ended.
\<close>

record child =
  killed :: bool
  running :: bool

datatype action = Spawned nat string "string list" | Signalled nat signal

text \<open>
  A pending timer is its handle, its due time and its callback. The state holds the module
  variables \<open>childProcess\<close> (a reference to a child object, by its index in \<open>children\<close>),
  \<open>debounceTimer\<close> (a timer handle, which stays in the variable after the timer has fired)
  and \<open>isRestarting\<close>; then the runtime: the clock, the pending timers, the next free
  handle, the child objects in the order they were spawned, and the log. The variable
  \<open>fileWatchers\<close> is left out: nothing stated below reads it.
\<close>

type_synonym timer = "nat \<times> nat \<times> callback"

record state =
  childProcess :: "nat option"
  debounceTimer :: "nat option"
  isRestarting :: bool
  now :: nat
  timers :: "timer list"
  nextTimer :: nat
  children :: "child list"
  trace :: "(nat \<times> action) list"

definition initial_state :: state where
  "initial_state =
     \<lparr>childProcess = None, debounceTimer = None, isRestarting = False, now = 0,
      timers = [], nextTimer = 0, children = [], trace = []\<rparr>"

definition timer_due :: "timer \<Rightarrow> nat" where
  "timer_due t = fst (snd t)"

definition timer_cb :: "timer \<Rightarrow> callback" where
  "timer_cb t = snd (snd t)"

text \<open>
  \<^verbatim>\<open>setTimeout(cb, delay)\<close>: a delay below 1 or above 2147483647 is taken as 1. The
  pending timers are kept in the order in which they fire: by due time, and among equal
  due times the one armed first.
\<close>

definition clamp_delay :: "nat \<Rightarrow> nat" where
  "clamp_delay d = (if d < 1 \<or> 2147483647 < d then 1 else d)"

fun insert_timer :: "timer \<Rightarrow> timer list \<Rightarrow> timer list" where
  "insert_timer t [] = [t]"
| "insert_timer t (u # us) =
     (if timer_due t < timer_due u then t # u # us else u # insert_timer t us)"

definition setTimeout :: "callback \<Rightarrow> nat \<Rightarrow> state \<Rightarrow> nat \<times> state" where
  "setTimeout cb delay s =
     (nextTimer s,
      s\<lparr>timers := insert_timer (nextTimer s, now s + clamp_delay delay, cb) (timers s),
        nextTimer := Suc (nextTimer s)\<rparr>)"

text \<open>\<^verbatim>\<open>clearTimeout(id)\<close>: nothing happens when the timer has fired already.\<close>

definition clearTimeout :: "nat \<Rightarrow> state \<Rightarrow> state" where
  "clearTimeout i s = s\<lparr>timers := filter (\<lambda>t. fst t \<noteq> i) (timers s)\<rparr>"

text \<open>
  \<^verbatim>\<open>child.kill(sig)\<close>: when the process is still there the signal is delivered and
  \<open>killed\<close> becomes true; otherwise nothing happens.
\<close>

definition child_kill :: "nat \<Rightarrow> signal \<Rightarrow> state \<Rightarrow> state" where
  "child_kill p sig s =
     (if p < length (children s) \<and> running (children s ! p)
      then s\<lparr>children := (children s)[p := (children s ! p)\<lparr>killed := True\<rparr>],
             trace := trace s @ [(now s, Signalled p sig)]\<rparr>
      else s)"

definition child_killed :: "state \<Rightarrow> nat \<Rightarrow> bool" where
  "child_killed s p = (p < length (children s) \<and> killed (children s ! p))"

section \<open>ProcessSupervisor: killTargetApp and startTargetApp\<close>

definition killTargetApp :: "state \<Rightarrow> state" where
  "killTargetApp s =
     (case childProcess s of
        None \<Rightarrow> s
      | Some p \<Rightarrow> snd (setTimeout ForceKill 5000 (child_kill p SIGTERM (s\<lparr>isRestarting := True\<rparr>))))"

text \<open>
  The callback of the 5000 ms timer. It reads the module variable \<open>childProcess\<close> when it
  fires. The child is spawned with \<^verbatim>\<open>stdio: 'inherit'\<close>, so its \<open>stdout\<close> and \<open>stderr\<close>
  are null and nothing is destroyed.
\<close>

definition forceKill :: "state \<Rightarrow> state" where
  "forceKill s =
     (case childProcess s of
        None \<Rightarrow> s
      | Some p \<Rightarrow>
          if \<not> child_killed s p then (child_kill p SIGKILL s)\<lparr>childProcess := None\<rparr> else s)
     \<lparr>isRestarting := False\<rparr>"

definition startTargetApp :: "string \<Rightarrow> string list \<Rightarrow> options \<Rightarrow> state \<Rightarrow> state" where
  "startTargetApp command args opts s =
     (let s1 = (if childProcess s \<noteq> None then killTargetApp s else s);
          p = length (children s1)
      in s1\<lparr>children := children s1 @ [\<lparr>killed = False, running = True\<rparr>],
            childProcess := Some p,
            trace := trace s1 @ [(now s1, Spawned p command args)]\<rparr>)"

text \<open>
  The \<open>exit\<close> and \<open>error\<close> listeners that \<open>startTargetApp\<close> registers on every child. Both
  assign the module variable, whichever child they were registered on.
\<close>

definition on_exit :: "int option \<Rightarrow> signal option \<Rightarrow> state \<Rightarrow> state" where
  "on_exit code sig s = s\<lparr>childProcess := None\<rparr>"

definition on_error :: "state \<Rightarrow> state" where
  "on_error s = s\<lparr>childProcess := None\<rparr>"

text \<open>The runtime reports that child \<open>p\<close> has ended, and runs its \<open>exit\<close> listener.\<close>

definition child_exited :: "nat \<Rightarrow> int option \<Rightarrow> signal option \<Rightarrow> state \<Rightarrow> state" where
  "child_exited p code sig s =
     (if p < length (children s) \<and> running (children s ! p)
      then on_exit code sig (s\<lparr>children := (children s)[p := (children s ! p)\<lparr>running := False\<rparr>]\<rparr>)
      else s)"

definition running_children :: "state \<Rightarrow> nat list" where
  "running_children s = filter (\<lambda>p. running (children s ! p)) [0..<length (children s)]"

section \<open>DebounceController: handleFileChange\<close>

definition handleFileChange ::
  "string \<Rightarrow> string \<Rightarrow> options \<Rightarrow> string \<Rightarrow> string list \<Rightarrow> state \<Rightarrow> state" where
  "handleFileChange filename eventType opts command args s =
     (if isRestarting s then s
      else
        let s1 = (case debounceTimer s of None \<Rightarrow> s | Some i \<Rightarrow> clearTimeout i s);
            (i, s2) = setTimeout (Restart command args opts) (debounceMs opts) s1
        in s2\<lparr>debounceTimer := Some i\<rparr>)"

section \<open>The event loop: firing the timers that are due\<close>

definition fire :: "callback \<Rightarrow> state \<Rightarrow> state" where
  "fire cb s =
     (case cb of
        ForceKill \<Rightarrow> forceKill s
      | Restart command args opts \<Rightarrow> startTargetApp command args opts s)"

fun timer_weight :: "callback \<Rightarrow> nat" where
  "timer_weight ForceKill = 1"
| "timer_weight (Restart command args opts) = 2"

definition pending_weight :: "state \<Rightarrow> nat" where
  "pending_weight s = sum_list (map (\<lambda>t. timer_weight (timer_cb t)) (timers s))"

lemma weight_insert_timer:
  "sum_list (map f (insert_timer t ts)) = (f t :: nat) + sum_list (map f ts)"
  by (induction ts) auto

lemma timers_child_kill [simp]: "timers (child_kill p sig s) = timers s"
  by (simp add: child_kill_def)

lemma pending_weight_forceKill: "pending_weight (forceKill s) = pending_weight s"
  by (simp add: pending_weight_def forceKill_def split: option.splits)

lemma pending_weight_killTargetApp: "pending_weight (killTargetApp s) \<le> Suc (pending_weight s)"
  by (simp add: pending_weight_def killTargetApp_def setTimeout_def weight_insert_timer
      timer_cb_def split: option.splits)

lemma pending_weight_startTargetApp:
  "pending_weight (startTargetApp command args opts s) \<le> Suc (pending_weight s)"
  using pending_weight_killTargetApp [of s]
  by (simp add: startTargetApp_def Let_def pending_weight_def)

lemma pending_weight_fire:
  "pending_weight (fire cb (s\<lparr>timers := rest, now := n\<rparr>))
     < pending_weight (s\<lparr>timers := (i, due, cb) # rest\<rparr>)"
proof (cases cb)
  case ForceKill
  then show ?thesis
    by (simp add: fire_def pending_weight_forceKill) (simp add: pending_weight_def timer_cb_def)
next
  case (Restart command args opts)
  have "pending_weight (startTargetApp command args opts (s\<lparr>timers := rest, now := n\<rparr>))
          \<le> Suc (pending_weight (s\<lparr>timers := rest, now := n\<rparr>))"
    by (rule pending_weight_startTargetApp)
  with Restart show ?thesis
    by (simp add: fire_def pending_weight_def timer_cb_def)
qed

text \<open>
  \<open>advance_to T\<close> lets the clock run to \<open>T\<close>: the pending timers due by then fire in order,
  each at its due time, the timers armed by a callback included. A restart arms at most
  one force-kill timer and a force-kill timer arms none, so this ends.
\<close>

function advance_to :: "nat \<Rightarrow> state \<Rightarrow> state" where
  "advance_to T s =
     (case timers s of
        [] \<Rightarrow> s\<lparr>now := max (now s) T\<rparr>
      | t # rest \<Rightarrow>
          if timer_due t \<le> T
          then advance_to T (fire (timer_cb t) (s\<lparr>timers := rest, now := max (now s) (timer_due t)\<rparr>))
          else s\<lparr>now := max (now s) T\<rparr>)"
  by pat_completeness auto
termination
proof (relation "measure (\<lambda>(T, s). pending_weight s)")
  show "wf (measure (\<lambda>(T, s). pending_weight s))" by simp
next
  fix T :: nat and s :: state and t rest
  assume ts: "timers s = t # rest"
  obtain i due cb where t: "t = (i, due, cb)" by (cases t)
  have "pending_weight (fire cb (s\<lparr>timers := rest, now := max (now s) due\<rparr>))
          < pending_weight (s\<lparr>timers := (i, due, cb) # rest\<rparr>)"
    by (rule pending_weight_fire)
  moreover have "s\<lparr>timers := (i, due, cb) # rest\<rparr> = s" using ts t by simp
  ultimately show "((T, fire (timer_cb t) (s\<lparr>timers := rest, now := max (now s) (timer_due t)\<rparr>)), T, s)
      \<in> measure (\<lambda>(T, s). pending_weight s)"
    using t by (simp add: timer_cb_def timer_due_def)
qed

declare advance_to.simps [simp del]

text \<open>Change events that reach \<open>handleFileChange\<close> at the given times, in order.\<close>

fun deliver_changes ::
  "options \<Rightarrow> string \<Rightarrow> string list \<Rightarrow> nat list \<Rightarrow> state \<Rightarrow> state" where
  "deliver_changes opts command args [] s = s"
| "deliver_changes opts command args (t # ts) s =
     deliver_changes opts command args ts
       (handleFileChange ''file.js'' ''change'' opts command args (advance_to t s))"

definition spawn_times :: "state \<Rightarrow> nat list" where
  "spawn_times s = map fst (filter (\<lambda>e. case snd e of Spawned p c a \<Rightarrow> True | _ \<Rightarrow> False) (trace s))"

section \<open>DirectoryEnumerator: getWatchDirectories\<close>

text \<open>
  The directory tree as \<^verbatim>\<open>readdir(dir, {withFileTypes: true})\<close> shows it: the entries of a
  directory in the order returned, each a name with what it is. A listing of \<open>None\<close> is a
  directory on which \<^verbatim>\<open>readdir\<close> throws (permission denied, or deleted since it was
  listed). Only \<^verbatim>\<open>isDirectory()\<close> entries are descended into, and a symbolic link is not
  one, so the tree is finite.
\<close>

datatype fsentry = FileEntry | DirEntry "(string \<times> fsentry) list option"

text \<open>\<^verbatim>\<open>fullPath.replace(rootPath, '').replace(/^\//, '')\<close>.\<close>

definition relativePath :: "string \<Rightarrow> string \<Rightarrow> string" where
  "relativePath rootPath fullPath = strip_leading_slash (remove_first rootPath fullPath)"

text \<open>
  \<open>traverse\<close> is the inner function with its \<^verbatim>\<open>try { ... } catch {}\<close>; \<open>traverse_entries\<close> is
  the \<^verbatim>\<open>for\<close> loop in the \<^verbatim>\<open>try\<close> block, which returns the exception that ended it, if
  any, beside the array \<open>directories\<close> as it stands then. \<^verbatim>\<open>path.join\<close> is the parameter
  \<open>join\<close>.
\<close>

function traverse ::
    "(string \<Rightarrow> string \<Rightarrow> js_error + bool) \<Rightarrow> (string \<Rightarrow> string \<Rightarrow> string) \<Rightarrow> string \<Rightarrow>
     string list \<Rightarrow> string \<Rightarrow> (string \<times> fsentry) list option \<Rightarrow> string list \<Rightarrow> string list"
  and traverse_entries ::
    "(string \<Rightarrow> string \<Rightarrow> js_error + bool) \<Rightarrow> (string \<Rightarrow> string \<Rightarrow> string) \<Rightarrow> string \<Rightarrow>
     string list \<Rightarrow> string \<Rightarrow> (string \<times> fsentry) list \<Rightarrow> string list \<Rightarrow>
     js_error option \<times> string list"
where
  "traverse rx join rootPath pats dirPath None dirs = dirs"
| "traverse rx join rootPath pats dirPath (Some entries) dirs =
     snd (traverse_entries rx join rootPath pats dirPath entries dirs)"
| "traverse_entries rx join rootPath pats dirPath [] dirs = (None, dirs)"
| "traverse_entries rx join rootPath pats dirPath ((name, FileEntry) # es) dirs =
     traverse_entries rx join rootPath pats dirPath es dirs"
| "traverse_entries rx join rootPath pats dirPath ((name, DirEntry sub) # es) dirs =
     (case shouldIgnore rx (relativePath rootPath (join dirPath name)) pats of
        Inl e \<Rightarrow> (Some e, dirs)
      | Inr True \<Rightarrow> traverse_entries rx join rootPath pats dirPath es dirs
      | Inr False \<Rightarrow>
          traverse_entries rx join rootPath pats dirPath es
            (traverse rx join rootPath pats (join dirPath name) sub (dirs @ [join dirPath name])))"
  by pat_completeness auto
termination
  by (relation "measure (\<lambda>x. case x of
         Inl (rx, join, rootPath, pats, dirPath, sub, dirs) \<Rightarrow>
           size_option (size_list (size_prod (\<lambda>n. 0) size)) sub
       | Inr (rx, join, rootPath, pats, dirPath, es, dirs) \<Rightarrow>
           size_list (size_prod (\<lambda>n. 0) size) es)") simp_all

definition getWatchDirectories ::
  "(string \<Rightarrow> string \<Rightarrow> js_error + bool) \<Rightarrow> (string \<Rightarrow> string \<Rightarrow> string) \<Rightarrow>
   (string \<times> fsentry) list option \<Rightarrow> string \<Rightarrow> string list \<Rightarrow> string list" where
  "getWatchDirectories rx join fs rootPath pats =
     traverse rx join rootPath pats rootPath fs [rootPath]"

section \<open>The callback of a watcher\<close>

text \<open>
  \<^verbatim>\<open>path.join\<close> for a directory path that is normalised and does not end in a slash, and
  a name without empty, \<open>.\<close> or \<open>..\<close> segments: then it only puts the separator between
  them. It stands in for \<^verbatim>\<open>path.join\<close> where a theorem evaluates a concrete call.
\<close>

definition join_plain :: "string \<Rightarrow> string \<Rightarrow> string" where
  "join_plain dir name = dir @ ''/'' @ name"

text \<open>
  The arrow function that \<open>setupWatchers\<close> passes to \<^verbatim>\<open>watch\<close> for \<open>directory\<close>; \<open>cwd\<close> is
  \<^verbatim>\<open>process.cwd()\<close>. A \<open>filename\<close> of \<open>None\<close> is \<^verbatim>\<open>null\<close>. In the branch of an ignored
  path the source has the statement \<^verbatim>\<open>returns;\<close>: the module is in strict mode and
  declares no such name, so evaluating it throws a ReferenceError.
\<close>

definition watch_callback ::
  "(string \<Rightarrow> string \<Rightarrow> js_error + bool) \<Rightarrow> (string \<Rightarrow> string \<Rightarrow> string) \<Rightarrow> string \<Rightarrow> string \<Rightarrow>
   options \<Rightarrow> string \<Rightarrow> string list \<Rightarrow> string \<Rightarrow> string option \<Rightarrow> state \<Rightarrow> js_error + state" where
  "watch_callback rx join cwd directory opts command args eventType filename s =
     (case filename of
        None \<Rightarrow> Inr s
      | Some name \<Rightarrow>
          if name = [] then Inr s
          else
            let fullPath = join directory name;
                relPath = remove_first (cwd @ ''/'') fullPath
            in case shouldIgnore rx relPath (ignorePatterns opts) of
                 Inl e \<Rightarrow> Inl e
               | Inr True \<Rightarrow> Inl ReferenceError
               | Inr False \<Rightarrow>
                   if \<not> shouldWatch relPath (watchExtensions opts) then Inr s
                   else Inr (handleFileChange relPath eventType opts command args s))"

section \<open>Predicates on states used in the statements\<close>

text \<open>The debounce timers among the pending ones.\<close>

definition is_restart :: "timer \<Rightarrow> bool" where
  "is_restart t = (case timer_cb t of Restart command args opts \<Rightarrow> True | ForceKill \<Rightarrow> False)"

definition restart_timers :: "state \<Rightarrow> timer list" where
  "restart_timers s = filter is_restart (timers s)"

text \<open>
  The pending timers are in firing order and none is overdue: what \<open>setTimeout\<close> and
  \<open>advance_to\<close> maintain from the initial state on.
\<close>

definition timers_ok :: "state \<Rightarrow> bool" where
  "timers_ok s =
     (sorted (map timer_due (timers s)) \<and> list_all (\<lambda>t. now s \<le> timer_due t) (timers s))"

text \<open>Every pending debounce timer is the one the variable \<open>debounceTimer\<close> refers to.\<close>

definition restart_ok :: "state \<Rightarrow> bool" where
  "restart_ok s = list_all (\<lambda>t. debounceTimer s = Some (fst t)) (restart_timers s)"

text \<open>No restart is pending and none is in progress.\<close>

definition quiet :: "state \<Rightarrow> bool" where
  "quiet s = (timers_ok s \<and> restart_timers s = [] \<and> \<not> isRestarting s)"

text \<open>One debounce timer is pending, armed just now for \<open>d\<close> milliseconds.\<close>

definition armed :: "nat \<Rightarrow> state \<Rightarrow> bool" where
  "armed d s =
     (timers_ok s \<and> restart_ok s \<and> \<not> isRestarting s
      \<and> map timer_due (restart_timers s) = [now s + d])"

text \<open>Event times in order, each less than \<open>d\<close> after the one before.\<close>

fun burst :: "nat \<Rightarrow> nat list \<Rightarrow> bool" where
  "burst d (t # u # ts) = (t \<le> u \<and> u < t + d \<and> burst d (u # ts))"
| "burst d ts = True"

section \<open>The matching rules, as the amended specification words them\<close>

text \<open>
  A pattern whose characters other than \<open>*\<close> and \<open>.\<close> are plain pattern characters.
\<close>

definition plain_glob :: "string \<Rightarrow> bool" where
  "plain_glob p = list_all (\<lambda>c. c = CHR ''*'' \<or> c = CHR ''.'' \<or> \<not> syntax_char c) p"

text \<open>The line terminators among the 8-bit characters: LF and CR.\<close>

definition line_terminator :: "char \<Rightarrow> bool" where
  "line_terminator c = (c = CHR 0x0A \<or> c = CHR 0x0D)"

text \<open>
  \<open>glob_match star p u\<close>: the whole of \<open>u\<close> matches the pattern \<open>p\<close>, where \<open>*\<close> stands for any
  run of characters that \<open>star\<close> admits, \<open>.\<close> for any one character other than a line
  terminator, and every other character for itself. In \<open>wildcard_match\<close> a star stands for
  any run of characters other than line terminators, path separators included; in
  \<open>segment_match\<close> for any run of characters other than the path separator, so that it
  stays within one segment. These definitions follow the amended wording, not the
  source; the theorem for C5 compares the source with them.
\<close>

fun glob_match :: "(char \<Rightarrow> bool) \<Rightarrow> string \<Rightarrow> string \<Rightarrow> bool" where
  "glob_match star [] u = (u = [])"
| "glob_match star (c # p) [] = (c = CHR ''*'' \<and> glob_match star p [])"
| "glob_match star (c # p) (x # u) =
     (if c = CHR ''*'' then glob_match star p (x # u) \<or> (star x \<and> glob_match star (c # p) u)
      else (if c = CHR ''.'' then \<not> line_terminator x else x = c) \<and> glob_match star p u)"

definition wildcard_match :: "string \<Rightarrow> string \<Rightarrow> bool" where
  "wildcard_match p u = glob_match (\<lambda>x. \<not> line_terminator x) p u"

definition segment_match :: "string \<Rightarrow> string \<Rightarrow> bool" where
  "segment_match p u = glob_match (\<lambda>x. x \<noteq> CHR ''/'') p u"

text \<open>
  What one character of such a pattern becomes, as tokens and as an item, when a star is
  translated into the starred class \<open>k\<close>.
\<close>

definition glob_toks :: "cls \<Rightarrow> char \<Rightarrow> tok list" where
  "glob_toks k c =
     (if c = CHR ''*'' then [Atom k, StarTok]
      else if c = CHR ''.'' then [Atom AnyChar] else [Atom (Lit c)])"

definition glob_item :: "cls \<Rightarrow> char \<Rightarrow> item" where
  "glob_item k c =
     (if c = CHR ''*'' then Star k
      else if c = CHR ''.'' then One AnyChar else One (Lit c))"

section \<open>The enumeration, as the specification words it\<close>

text \<open>
  The root-relative path of the entry \<open>name\<close> of a directory: the name itself in the root,
  and below the directory with root-relative path \<open>r\<close> the path \<open>r/name\<close>. \<open>dir_at\<close> is the
  full path of the directory with that root-relative path.
\<close>

fun rel_below :: "string option \<Rightarrow> string \<Rightarrow> string" where
  "rel_below None name = name"
| "rel_below (Some r) name = r @ ''/'' @ name"

fun dir_at :: "string \<Rightarrow> string option \<Rightarrow> string" where
  "dir_at rootPath None = rootPath"
| "dir_at rootPath (Some r) = rootPath @ ''/'' @ r"

text \<open>
  \<open>spec_walk ign rel listing\<close>: the root-relative paths of the directories to watch below
  the directory with root-relative path \<open>rel\<close> (\<open>None\<close> for the root), in the order of the
  walk. A subdirectory whose root-relative path \<open>ign\<close> ignores is pruned: it is not listed
  and not descended into. A directory that cannot be read is listed and contributes
  nothing more. This definition follows the specification's words, not the source; the
  theorem for C8 compares the source with it.
\<close>

function spec_walk :: "(string \<Rightarrow> bool) \<Rightarrow> string option \<Rightarrow> (string \<times> fsentry) list option \<Rightarrow> string list"
  and spec_walk_entries :: "(string \<Rightarrow> bool) \<Rightarrow> string option \<Rightarrow> (string \<times> fsentry) list \<Rightarrow> string list"
where
  "spec_walk ign rel None = []"
| "spec_walk ign rel (Some es) = spec_walk_entries ign rel es"
| "spec_walk_entries ign rel [] = []"
| "spec_walk_entries ign rel ((name, FileEntry) # es) = spec_walk_entries ign rel es"
| "spec_walk_entries ign rel ((name, DirEntry sub) # es) =
     (if ign (rel_below rel name) then spec_walk_entries ign rel es
      else rel_below rel name # spec_walk ign (Some (rel_below rel name)) sub
             @ spec_walk_entries ign rel es)"
  by pat_completeness auto
termination
  by (relation "measure (\<lambda>x. case x of
         Inl (ign, rel, sub) \<Rightarrow> size_option (size_list (size_prod (\<lambda>n. 0) size)) sub
       | Inr (ign, rel, es) \<Rightarrow> size_list (size_prod (\<lambda>n. 0) size) es)") simp_all

section \<open>Properties of shouldIgnore\<close>

text \<open>
  C7 (Scenario A). With the ignore set \<open>node_modules/**\<close>, \<open>*.log\<close>, the paths
  \<open>node_modules/a/b.js\<close> and \<open>app.log\<close> are ignored and \<open>src/x.js\<close> is not. Both patterns
  translate into the modelled fragment, so the result does not depend on \<open>rx\<close>.
\<close>

theorem shouldIgnore_scenario_A:
  "shouldIgnore rx ''node_modules/a/b.js'' [''node_modules/**'', ''*.log''] = Inr True
   \<and> shouldIgnore rx ''app.log'' [''node_modules/**'', ''*.log''] = Inr True
   \<and> shouldIgnore rx ''src/x.js'' [''node_modules/**'', ''*.log''] = Inr False"
  by (simp add: pattern_matches_def RegExp_test_def RegExp_parse_def syntax_char_def)

text \<open>
  C9. The dot of a pattern is not escaped when the pattern becomes a regular expression,
  so it stands for any character: the path \<open>catalog\<close> does not contain the text \<open>.log\<close>,
  and yet the pattern \<open>*.log\<close> ignores it.
\<close>

theorem shouldIgnore_dot_is_any_char:
  "\<not> str_includes ''catalog'' ''.log''
   \<and> shouldIgnore rx ''catalog'' [''*.log''] = Inr True"
  by (simp add: pattern_matches_def RegExp_test_def RegExp_parse_def syntax_char_def)

section \<open>The translation of a pattern with stars\<close>

lemma glob_toks_simps:
  "glob_toks k CHR ''*'' = [Atom k, StarTok]"
  "glob_toks k CHR ''.'' = [Atom AnyChar]"
  "c \<noteq> CHR ''*'' \<Longrightarrow> c \<noteq> CHR ''.'' \<Longrightarrow> glob_toks k c = [Atom (Lit c)]"
  by (simp_all add: glob_toks_def)

lemma glob_item_simps:
  "glob_item k CHR ''*'' = Star k"
  "glob_item k CHR ''.'' = One AnyChar"
  "c \<noteq> CHR ''*'' \<Longrightarrow> c \<noteq> CHR ''.'' \<Longrightarrow> glob_item k c = One (Lit c)"
  by (simp_all add: glob_item_def)

lemma str_includes_sublist: "str_includes s pat = sublist pat s"
  by (induction s) (simp_all add: sublist_Cons_right)

lemma lex_glob:
  assumes star: "\<And>rest ts. RegExp_lex rest = Some ts \<Longrightarrow>
      RegExp_lex (r @ rest) = Some (Atom k # StarTok # ts)"
    and rest: "RegExp_lex rest = Some ts0"
  shows "plain_glob p \<Longrightarrow>
    RegExp_lex (replace_star r p @ rest) = Some (concat (map (glob_toks k) p) @ ts0)"
proof (induction p)
  case Nil
  then show ?case by (simp add: rest)
next
  case (Cons c p)
  then have IH: "RegExp_lex (replace_star r p @ rest)
      = Some (concat (map (glob_toks k) p) @ ts0)"
    and c: "c = CHR ''*'' \<or> c = CHR ''.'' \<or> \<not> syntax_char c"
    by (simp_all add: plain_glob_def)
  consider "c = CHR ''*''" | "c = CHR ''.''"
    | "c \<noteq> CHR ''*''" "c \<noteq> CHR ''.''" "\<not> syntax_char c"
    using c by blast
  then show ?case
  proof cases
    case 1
    then show ?thesis using star [OF IH] by (simp add: glob_toks_simps)
  next
    case 2
    then show ?thesis using IH by (simp add: glob_toks_simps)
  next
    case 3
    have "syntax_char CHR ''[''" by (simp add: syntax_char_def)
    with 3 have "c \<noteq> CHR ''[''" by auto
    with 3 show ?thesis using IH by (simp add: glob_toks_simps)
  qed
qed

lemma lex_star_any:
  "RegExp_lex rest = Some ts \<Longrightarrow> RegExp_lex (''.*'' @ rest) = Some (Atom AnyChar # StarTok # ts)"
  by simp

lemma lex_star_segment:
  "RegExp_lex rest = Some ts \<Longrightarrow>
   RegExp_lex (''[^/]*'' @ rest) = Some (Atom NotSlash # StarTok # ts)"
  by simp

lemma glob_toks_head:
  "ts = [] \<or> (\<exists>a r. ts = Atom a # r) \<Longrightarrow>
   concat (map (glob_toks k) p) @ ts = [] \<or> (\<exists>a r. concat (map (glob_toks k) p) @ ts = Atom a # r)"
proof (cases p)
  case Nil
  then show "ts = [] \<or> (\<exists>a r. ts = Atom a # r) \<Longrightarrow> ?thesis" by simp
next
  case (Cons c p')
  have "\<exists>a r. glob_toks k c = Atom a # r" by (simp add: glob_toks_def)
  then show ?thesis using Cons by auto
qed

lemma items_atom:
  "ts = [] \<or> (\<exists>b r. ts = Atom b # r) \<Longrightarrow>
   RegExp_items (Atom a # ts) = map_option ((#) (One a)) (RegExp_items ts)"
  by auto

lemma items_glob:
  assumes ts: "ts = [] \<or> (\<exists>a r. ts = Atom a # r)" and re: "RegExp_items ts = Some re"
  shows "RegExp_items (concat (map (glob_toks k) p) @ ts) = Some (map (glob_item k) p @ re)"
proof (induction p)
  case Nil
  then show ?case by (simp add: re)
next
  case (Cons c p)
  show ?case
  proof (cases "c = CHR ''*''")
    case True
    then show ?thesis using Cons by (simp add: glob_toks_simps glob_item_simps)
  next
    case False
    have "\<exists>a. glob_toks k c = [Atom a] \<and> glob_item k c = One a"
      using False by (cases "c = CHR ''.''") (simp_all add: glob_toks_simps glob_item_simps)
    then obtain a where a: "glob_toks k c = [Atom a]" "glob_item k c = One a" by blast
    show ?thesis
      using items_atom [OF glob_toks_head [OF ts, of k p], of a] Cons a by simp
  qed
qed

text \<open>
  The two translations: of a pattern with single stars only, and of a pattern that ends
  in a double star.
\<close>

lemma parse_single_star:
  "plain_glob p \<Longrightarrow> RegExp_parse (replace_star ''.*'' p) = Some (map (glob_item AnyChar) p)"
  using lex_glob [of "''.*''" AnyChar "[]" "[]" p, OF lex_star_any]
    items_glob [of "[]" "[]" AnyChar p]
  by (simp add: RegExp_parse_def)

lemma replace_star_append:
  "replace_star r (a @ b) = replace_star r a @ replace_star r b"
  by (induction a) simp_all

lemma replace_star2_trailing:
  "\<not> sublist ''**'' q \<Longrightarrow> \<not> suffix ''*'' q \<Longrightarrow> replace_star2 ''.*'' (q @ ''**'') = q @ ''.*''"
proof (induction q)
  case Nil
  then show ?case by simp
next
  case (Cons a q)
  from Cons.prems have nq: "\<not> sublist ''**'' q" and np: "\<not> prefix ''**'' (a # q)"
    by (simp_all add: sublist_Cons_right)
  from Cons.prems(2) have ns: "\<not> suffix ''*'' q" by (auto simp: suffix_Cons)
  note IH = Cons.IH [OF nq ns]
  show ?case
  proof (cases q)
    case Nil
    with Cons.prems(2) have "a \<noteq> CHR ''*''" by auto
    then show ?thesis using Nil by simp
  next
    case (Cons b q')
    with np have "\<not> (a = CHR ''*'' \<and> b = CHR ''*'')" by auto
    then show ?thesis using IH Cons by auto
  qed
qed

lemma parse_trailing_double_star:
  assumes "plain_glob q" and "\<not> sublist ''**'' q" and "\<not> suffix ''*'' q"
  shows "RegExp_parse (replace_star ''[^/]*'' (replace_star2 ''.*'' (q @ ''**'')))
           = Some (map (glob_item NotSlash) q @ [One AnyChar, Star NotSlash])"
proof -
  have src: "replace_star ''[^/]*'' (replace_star2 ''.*'' (q @ ''**''))
      = replace_star ''[^/]*'' q @ ''.[^/]*''"
    using replace_star2_trailing [OF assms(2,3)] by (simp add: replace_star_append)
  have l: "RegExp_lex ''.[^/]*'' = Some [Atom AnyChar, Atom NotSlash, StarTok]" by simp
  have i: "RegExp_items [Atom AnyChar, Atom NotSlash, StarTok] = Some [One AnyChar, Star NotSlash]"
    by simp
  have "RegExp_lex (replace_star ''[^/]*'' q @ ''.[^/]*'')
      = Some (concat (map (glob_toks NotSlash) q) @ [Atom AnyChar, Atom NotSlash, StarTok])"
    using lex_glob [of "''[^/]*''" NotSlash "''.[^/]*''" _ q, OF lex_star_segment l assms(1)] .
  moreover have "RegExp_items (concat (map (glob_toks NotSlash) q) @ [Atom AnyChar, Atom NotSlash, StarTok])
      = Some (map (glob_item NotSlash) q @ [One AnyChar, Star NotSlash])"
    by (rule items_glob [OF _ i]) simp
  ultimately show ?thesis unfolding src by (simp add: RegExp_parse_def)
qed


text \<open>What the translated expressions match.\<close>

lemma cls_accepts_AnyChar: "cls_accepts AnyChar x = (\<not> line_terminator x)"
  by (simp add: line_terminator_def)

lemma split_Cons_append:
  "(\<exists>u v. x # s = u @ v \<and> P u v) = (P [] (x # s) \<or> (\<exists>u' v. s = u' @ v \<and> P (x # u') v))"
proof
  assume "\<exists>u v. x # s = u @ v \<and> P u v"
  then obtain u v where uv: "x # s = u @ v" "P u v" by blast
  show "P [] (x # s) \<or> (\<exists>u' v. s = u' @ v \<and> P (x # u') v)"
  proof (cases u)
    case Nil
    with uv show ?thesis by simp
  next
    case (Cons a u')
    with uv have "s = u' @ v" "P (x # u') v" by simp_all
    then show ?thesis by blast
  qed
next
  assume "P [] (x # s) \<or> (\<exists>u' v. s = u' @ v \<and> P (x # u') v)"
  then show "\<exists>u v. x # s = u @ v \<and> P u v"
  proof
    assume "P [] (x # s)"
    then have "x # s = [] @ (x # s) \<and> P [] (x # s)" by simp
    then show ?thesis by blast
  next
    assume "\<exists>u' v. s = u' @ v \<and> P (x # u') v"
    then obtain u' v where "s = u' @ v" "P (x # u') v" by blast
    then have "x # s = (x # u') @ v \<and> P (x # u') v" by simp
    then show ?thesis by blast
  qed
qed

lemma match_here_star:
  assumes IH: "\<And>s. match_here (re @ re2) s
      = (\<exists>u v. s = u @ v \<and> glob_match star p u \<and> match_here re2 v)"
    and k: "\<And>x. cls_accepts k x = star x"
  shows "match_here (Star k # re @ re2) s
      = (\<exists>u v. s = u @ v \<and> glob_match star (CHR ''*'' # p) u \<and> match_here re2 v)"
proof (induction s)
  case Nil
  then show ?case by (simp add: IH)
next
  case (Cons x s)
  have L: "match_here (Star k # re @ re2) (x # s)
      = ((glob_match star p [] \<and> match_here re2 (x # s))
         \<or> (\<exists>u' v. s = u' @ v \<and> glob_match star p (x # u') \<and> match_here re2 v)
         \<or> (star x \<and> (\<exists>u v. s = u @ v \<and> glob_match star (CHR ''*'' # p) u \<and> match_here re2 v)))"
    using Cons IH [of "x # s"]
      split_Cons_append [of x s "\<lambda>u v. glob_match star p u \<and> match_here re2 v"]
    by (simp add: k)
  have R: "(\<exists>u v. x # s = u @ v \<and> glob_match star (CHR ''*'' # p) u \<and> match_here re2 v)
      = ((glob_match star p [] \<and> match_here re2 (x # s))
         \<or> (\<exists>u' v. s = u' @ v
               \<and> (glob_match star p (x # u') \<or> (star x \<and> glob_match star (CHR ''*'' # p) u'))
               \<and> match_here re2 v))"
    using split_Cons_append [of x s "\<lambda>u v. glob_match star (CHR ''*'' # p) u \<and> match_here re2 v"]
    by simp
  show ?case unfolding L R by blast
qed

lemma match_here_glob:
  assumes k: "\<And>x. cls_accepts k x = star x"
  shows "match_here (map (glob_item k) p @ re2) s
     = (\<exists>u v. s = u @ v \<and> glob_match star p u \<and> match_here re2 v)"
proof (induction p arbitrary: s)
  case Nil
  then show ?case by simp
next
  case (Cons c p)
  show ?case
  proof (cases "c = CHR ''*''")
    case True
    then show ?thesis
      using match_here_star [of "map (glob_item k) p" re2 star p k s] Cons k
      by (simp add: glob_item_simps)
  next
    case False
    show ?thesis
    proof (cases s)
      case Nil
      then show ?thesis
        using False by (cases "c = CHR ''.''") (simp_all add: glob_item_simps)
    next
      case (Cons x s')
      have R: "(\<exists>u v. x # s' = u @ v \<and> glob_match star (c # p) u \<and> match_here re2 v)
          = (\<exists>u' v. s' = u' @ v \<and> glob_match star (c # p) (x # u') \<and> match_here re2 v)"
        using False
          split_Cons_append [of x s' "\<lambda>u v. glob_match star (c # p) u \<and> match_here re2 v"]
        by simp
      show ?thesis
        unfolding Cons R using False Cons.IH [of s']
        by (cases "c = CHR ''.''") (auto simp: glob_item_simps line_terminator_def)
    qed
  qed
qed

lemma regex_test_suffix: "regex_test re s = (\<exists>t. suffix t s \<and> match_here re t)"
  by (induction s) (auto simp: suffix_Cons)

lemma regex_test_single_star:
  "regex_test (map (glob_item AnyChar) p) s = (\<exists>u. sublist u s \<and> wildcard_match p u)"
proof -
  have m: "\<And>t. match_here (map (glob_item AnyChar) p) t
      = (\<exists>u. prefix u t \<and> wildcard_match p u)"
    using match_here_glob [where k = AnyChar and star = "\<lambda>x. \<not> line_terminator x"
        and p = p and ?re2.0 = "[]", OF cls_accepts_AnyChar]
    by (auto simp: wildcard_match_def prefix_def)
  show ?thesis unfolding regex_test_suffix m sublist_altdef' by blast
qed

lemma match_here_tail: "match_here [One AnyChar, Star NotSlash] v
    = (\<exists>c r. v = c # r \<and> \<not> line_terminator c)"
proof (cases v)
  case Nil
  then show ?thesis by simp
next
  case (Cons c r)
  have "match_here [Star NotSlash] r" by (cases r) simp_all
  then show ?thesis using Cons by (simp add: line_terminator_def)
qed

lemma regex_test_trailing_double_star:
  "regex_test (map (glob_item NotSlash) q @ [One AnyChar, Star NotSlash]) s
     = (\<exists>u c. sublist (u @ [c]) s \<and> segment_match q u \<and> \<not> line_terminator c)"
proof -
  have m: "\<And>t. match_here (map (glob_item NotSlash) q @ [One AnyChar, Star NotSlash]) t
      = (\<exists>u c r. t = u @ c # r \<and> segment_match q u \<and> \<not> line_terminator c)"
    using match_here_glob [where k = NotSlash and star = "\<lambda>x. x \<noteq> CHR ''/''"
        and p = q and ?re2.0 = "[One AnyChar, Star NotSlash]", OF cls_accepts.simps(2)]
    by (simp add: segment_match_def match_here_tail) blast
  show ?thesis
    unfolding regex_test_suffix m
    by (auto simp: sublist_def suffix_def)
qed


lemma star2_has_star: "str_includes p ''**'' \<Longrightarrow> str_includes p ''*''"
proof -
  assume "str_includes p ''**''"
  then obtain ps ss where "p = ps @ ''**'' @ ss"
    by (auto simp: str_includes_sublist sublist_def)
  then have "p = ps @ ''*'' @ (''*'' @ ss)" by simp
  then show ?thesis unfolding str_includes_sublist sublist_def by blast
qed

lemma pattern_matches_literal:
  "\<not> str_includes p ''*'' \<Longrightarrow> pattern_matches rx path p = Inr (sublist p path)"
  using star2_has_star [of p] by (auto simp: pattern_matches_def str_includes_sublist)

lemma pattern_matches_single_star:
  "str_includes p ''*'' \<Longrightarrow> \<not> str_includes p ''**'' \<Longrightarrow> plain_glob p \<Longrightarrow>
   pattern_matches rx path p = Inr (\<exists>u. sublist u path \<and> wildcard_match p u)"
  by (simp add: pattern_matches_def RegExp_test_def parse_single_star regex_test_single_star)

lemma pattern_matches_trailing_double_star:
  assumes "plain_glob q" and "\<not> str_includes q ''**''" and "\<not> endsWith q ''*''"
  shows "pattern_matches rx path (q @ ''**'')
           = Inr (\<exists>u c. sublist (u @ [c]) path \<and> segment_match q u \<and> \<not> line_terminator c)"
proof -
  have "sublist ''**'' (q @ ''**'')" unfolding sublist_def by (metis append_Nil2)
  then have inc: "str_includes (q @ ''**'') ''**''" by (simp add: str_includes_sublist)
  have "RegExp_parse (replace_star ''[^/]*'' (replace_star2 ''.*'' (q @ ''**'')))
      = Some (map (glob_item NotSlash) q @ [One AnyChar, Star NotSlash])"
    using assms by (intro parse_trailing_double_star) (simp_all add: str_includes_sublist endsWith_def)
  then show ?thesis
    using inc by (simp add: pattern_matches_def RegExp_test_def regex_test_trailing_double_star)
qed

lemma pattern_matches_below:
  assumes "plain_glob q" and "\<not> str_includes q ''**''" and "\<not> endsWith q ''*''"
    and "segment_match q u" and "\<not> line_terminator c"
  shows "pattern_matches rx (before @ u @ c # deeper) (q @ ''**'') = Inr True"
proof -
  have "before @ u @ c # deeper = before @ (u @ [c]) @ deeper" by simp
  then have "sublist (u @ [c]) (before @ u @ c # deeper)" unfolding sublist_def by blast
  with assms(4,5) have "\<exists>u' c'. sublist (u' @ [c']) (before @ u @ c # deeper)
      \<and> segment_match q u' \<and> \<not> line_terminator c'" by blast
  then show ?thesis
    by (simp add: pattern_matches_trailing_double_star [OF assms(1-3)])
qed

lemma shouldIgnore_any:
  "\<forall>p \<in> set pats. \<exists>b. pattern_matches rx path p = Inr b \<Longrightarrow>
   shouldIgnore rx path pats = Inr (\<exists>p \<in> set pats. pattern_matches rx path p = Inr True)"
  by (induction pats) (auto split: sum.splits bool.splits)

text \<open>
  C5, as the claim states it, fails: a single star does match across a path separator.
  The pattern \<open>a*b\<close> becomes the expression \<open>a.*b\<close>, and the path \<open>a/b\<close> is ignored, where
  only the separator stands between \<open>a\<close> and \<open>b\<close>.
\<close>

theorem shouldIgnore_wildcard_crosses_separator_counterexample:
  "shouldIgnore (\<lambda>src s. Inl SyntaxError) ''a/b'' [''a*b''] = Inr True"
  by (simp add: pattern_matches_def RegExp_test_def RegExp_parse_def syntax_char_def)

text \<open>
  C5, amended. (1) When no pattern of the set throws, \<open>shouldIgnore\<close> is true exactly when some
  pattern of the set matches the path. (2) A pattern without a star matches when the path
  contains it as a contiguous piece. (3) A pattern made of stars, dots and plain
  characters, with a star but without a double star, matches when some contiguous piece
  of the path matches it with each star standing for any run of characters other than
  line terminators, path separators included. (4) A pattern that ends in the double star,
  after a part \<open>q\<close> made of such characters that has no double star and does not end in a
  star, matches when the path contains a piece matching \<open>q\<close> followed by one more character
  that is no line terminator, where each star of \<open>q\<close> stands for a run of characters other
  than the separator, so within one segment only. (5) Whatever comes after that
  character does not matter: path segments of any depth below it match. In (3) and (4) a
  dot stands for any one character other than a line terminator. What a double star
  that is not at the end of the pattern matches is left open.
\<close>

theorem shouldIgnore_matching_rules:
  "((\<forall>p \<in> set pats. \<exists>b. pattern_matches rx path p = Inr b)
      \<longrightarrow> shouldIgnore rx path pats = Inr (\<exists>p \<in> set pats. pattern_matches rx path p = Inr True))
   \<and> (\<not> str_includes p ''*'' \<longrightarrow> pattern_matches rx path p = Inr (sublist p path))
   \<and> (str_includes p ''*'' \<and> \<not> str_includes p ''**'' \<and> plain_glob p
      \<longrightarrow> pattern_matches rx path p = Inr (\<exists>u. sublist u path \<and> wildcard_match p u))
   \<and> (plain_glob q \<and> \<not> str_includes q ''**'' \<and> \<not> endsWith q ''*''
      \<longrightarrow> pattern_matches rx path (q @ ''**'')
            = Inr (\<exists>u c. sublist (u @ [c]) path \<and> segment_match q u \<and> \<not> line_terminator c))
   \<and> (plain_glob q \<and> \<not> str_includes q ''**'' \<and> \<not> endsWith q ''*''
        \<and> segment_match q u \<and> \<not> line_terminator c
      \<longrightarrow> pattern_matches rx (before @ u @ c # deeper) (q @ ''**'') = Inr True)"
proof (intro conjI impI)
  assume "\<forall>p \<in> set pats. \<exists>b. pattern_matches rx path p = Inr b"
  then show "shouldIgnore rx path pats
      = Inr (\<exists>p \<in> set pats. pattern_matches rx path p = Inr True)"
    by (rule shouldIgnore_any)
next
  assume "\<not> str_includes p ''*''"
  then show "pattern_matches rx path p = Inr (sublist p path)"
    by (rule pattern_matches_literal)
next
  assume "str_includes p ''*'' \<and> \<not> str_includes p ''**'' \<and> plain_glob p"
  then show "pattern_matches rx path p = Inr (\<exists>u. sublist u path \<and> wildcard_match p u)"
    by (simp add: pattern_matches_single_star)
next
  assume "plain_glob q \<and> \<not> str_includes q ''**'' \<and> \<not> endsWith q ''*''"
  then show "pattern_matches rx path (q @ ''**'')
      = Inr (\<exists>u c. sublist (u @ [c]) path \<and> segment_match q u \<and> \<not> line_terminator c)"
    by (simp add: pattern_matches_trailing_double_star)
next
  assume "plain_glob q \<and> \<not> str_includes q ''**'' \<and> \<not> endsWith q ''*''
      \<and> segment_match q u \<and> \<not> line_terminator c"
  then show "pattern_matches rx (before @ u @ c # deeper) (q @ ''**'') = Inr True"
    by (simp add: pattern_matches_below)
qed

theorem shouldIgnore_matching_rules_witness:
  "pattern_matches (\<lambda>src s. Inl SyntaxError) ''src/app.log'' ''dist'' = Inr False
   \<and> pattern_matches (\<lambda>src s. Inl SyntaxError) ''src/app.log'' ''*.log'' = Inr True
   \<and> shouldIgnore (\<lambda>src s. Inl SyntaxError) ''src/app.log'' [''dist'', ''*.log''] = Inr True
   \<and> \<not> str_includes ''dist'' ''*''
   \<and> sublist ''dist'' ''src/dist/x''
   \<and> pattern_matches (\<lambda>src s. Inl SyntaxError) ''src/dist/x'' ''dist'' = Inr True
   \<and> str_includes ''*.log'' ''*'' \<and> \<not> str_includes ''*.log'' ''**'' \<and> plain_glob ''*.log''
   \<and> sublist ''app.log'' ''src/app.log'' \<and> wildcard_match ''*.log'' ''app.log''
   \<and> plain_glob ''node_modules/'' \<and> \<not> str_includes ''node_modules/'' ''**''
   \<and> \<not> endsWith ''node_modules/'' ''*''
   \<and> segment_match ''node_modules/'' ''node_modules/'' \<and> \<not> line_terminator CHR ''a''
   \<and> pattern_matches (\<lambda>src s. Inl SyntaxError) (''pkg/'' @ ''node_modules/'' @ CHR ''a'' # ''/b/c/d.js'')
        (''node_modules/'' @ ''**'') = Inr True"
proof -
  let ?rx = "\<lambda>src s. Inl SyntaxError :: js_error + bool"
  have e: "pattern_matches ?rx ''src/app.log'' ''dist'' = Inr False"
    "pattern_matches ?rx ''src/app.log'' ''*.log'' = Inr True"
    by (simp_all add: pattern_matches_def RegExp_test_def RegExp_parse_def syntax_char_def)
  have h: "\<not> str_includes ''dist'' ''*''" "str_includes ''*.log'' ''*''"
    "\<not> str_includes ''*.log'' ''**''" "plain_glob ''*.log''"
    "plain_glob ''node_modules/''" "\<not> str_includes ''node_modules/'' ''**''"
    "\<not> endsWith ''node_modules/'' ''*''" "\<not> line_terminator CHR ''a''"
    by (simp_all add: plain_glob_def syntax_char_def endsWith_def suffix_def line_terminator_def)
  have sub: "sublist ''dist'' ''src/dist/x''" "sublist ''app.log'' ''src/app.log''"
    "wildcard_match ''*.log'' ''app.log''" "segment_match ''node_modules/'' ''node_modules/''"
    by (simp_all add: sublist_code wildcard_match_def segment_match_def line_terminator_def)
  from shouldIgnore_matching_rules [of "[''dist'', ''*.log'']" ?rx "''src/app.log''" "''dist''"] e
  have 1: "shouldIgnore ?rx ''src/app.log'' [''dist'', ''*.log''] = Inr True" by simp
  from shouldIgnore_matching_rules [of "[]" ?rx "''src/dist/x''" "''dist''"] h sub
  have 2: "pattern_matches ?rx ''src/dist/x'' ''dist'' = Inr True" by simp
  from shouldIgnore_matching_rules [where q = "''node_modules/''" and u = "''node_modules/''"
      and c = "CHR ''a''" and before = "''pkg/''" and deeper = "''/b/c/d.js''" and rx = ?rx] h sub
  have 3: "pattern_matches ?rx (''pkg/'' @ ''node_modules/'' @ CHR ''a'' # ''/b/c/d.js'')
      (''node_modules/'' @ ''**'') = Inr True" by blast
  from e h sub 1 2 3 show ?thesis by blast
qed

text \<open>
  The double star elsewhere: the second replacement also rewrites the star of the \<open>.*\<close>
  that the first one has just written, so \<open>**\<close> ends up as \<open>.[^/]*\<close>, one character followed
  by a run without separators.
\<close>

theorem shouldIgnore_double_star_translation:
  "replace_star ''[^/]*'' (replace_star2 ''.*'' ''a/**/b'') = ''a/.[^/]*/b''
   \<and> shouldIgnore rx ''a/x/y/b'' [''a/**/b''] = Inr False
   \<and> shouldIgnore rx ''a/x/b'' [''a/**/b''] = Inr True"
  by (simp add: pattern_matches_def RegExp_test_def RegExp_parse_def syntax_char_def)

section \<open>The supervisor: helper lemmas\<close>

lemmas supervisor_defs =
  startTargetApp_def killTargetApp_def forceKill_def child_kill_def child_killed_def
  child_exited_def on_exit_def setTimeout_def clearTimeout_def clamp_delay_def fire_def
  timer_due_def timer_cb_def handleFileChange_def

lemma set_insert_timer [simp]: "set (insert_timer t ts) = insert t (set ts)"
  by (induction ts) auto

lemma sorted_insert_timer:
  "sorted (map timer_due ts) \<Longrightarrow> sorted (map timer_due (insert_timer t ts))"
  by (induction ts) (auto simp: less_imp_le)

lemma filter_insert_timer_skip:
  "\<not> P t \<Longrightarrow> filter P (insert_timer t ts) = filter P ts"
  by (induction ts) auto

lemma filter_insert_timer_only:
  "P t \<Longrightarrow> filter P ts = [] \<Longrightarrow> filter P (insert_timer t ts) = [t]"
  by (induction ts) (auto split: if_splits)

text \<open>One step of \<open>advance_to\<close>, by the state of the timer queue.\<close>

lemma advance_to_Nil: "timers s = [] \<Longrightarrow> advance_to T s = s\<lparr>now := max (now s) T\<rparr>"
  by (subst advance_to.simps) simp

lemma advance_to_wait:
  "timers s = t # rest \<Longrightarrow> T < timer_due t \<Longrightarrow> advance_to T s = s\<lparr>now := max (now s) T\<rparr>"
  by (subst advance_to.simps) simp

lemma advance_to_fire:
  "timers s = t # rest \<Longrightarrow> timer_due t \<le> T \<Longrightarrow>
   advance_to T s =
     advance_to T (fire (timer_cb t) (s\<lparr>timers := rest, now := max (now s) (timer_due t)\<rparr>))"
  by (subst advance_to.simps) simp

lemma forceKill_frame:
  "timers (forceKill s) = timers s" "now (forceKill s) = now s"
  "debounceTimer (forceKill s) = debounceTimer s" "\<not> isRestarting (forceKill s)"
  "spawn_times (forceKill s) = spawn_times s"
  by (simp_all add: forceKill_def child_kill_def spawn_times_def split: option.splits)

lemma killTargetApp_frame:
  "now (killTargetApp s) = now s"
  "debounceTimer (killTargetApp s) = debounceTimer s"
  "spawn_times (killTargetApp s) = spawn_times s"
  "timers (killTargetApp s) = timers s \<or>
   timers (killTargetApp s) = insert_timer (nextTimer s, now s + 5000, ForceKill) (timers s)"
  by (simp_all add: killTargetApp_def child_kill_def setTimeout_def clamp_delay_def
      spawn_times_def split: option.splits)

lemma startTargetApp_frame:
  "now (startTargetApp command args opts s) = now s"
  "debounceTimer (startTargetApp command args opts s) = debounceTimer s"
  "spawn_times (startTargetApp command args opts s) = spawn_times s @ [now s]"
  "timers (startTargetApp command args opts s) = timers s \<or>
   timers (startTargetApp command args opts s)
     = insert_timer (nextTimer s, now s + 5000, ForceKill) (timers s)"
  using killTargetApp_frame [of s]
  by (simp_all add: startTargetApp_def Let_def spawn_times_def)


lemma fire_frame:
  "now (fire cb s) = now s"
  "debounceTimer (fire cb s) = debounceTimer s"
  "cb = ForceKill \<Longrightarrow> \<not> isRestarting (fire cb s)"
  using forceKill_frame [of s]
  by (cases cb; simp add: fire_def startTargetApp_frame)+

lemma spawn_times_fire:
  "spawn_times (fire cb s) = spawn_times s @ (if is_restart (i, due, cb) then [now s] else [])"
  by (cases cb) (simp_all add: fire_def forceKill_frame startTargetApp_frame is_restart_def timer_cb_def)

lemma restart_timers_fire: "restart_timers (fire cb s) = restart_timers s"
proof (cases cb)
  case ForceKill
  then show ?thesis by (simp add: fire_def restart_timers_def forceKill_frame)
next
  case (Restart command args opts)
  have "\<not> is_restart (nextTimer s, now s + 5000, ForceKill)"
    by (simp add: is_restart_def timer_cb_def)
  then show ?thesis
    using startTargetApp_frame(4) [of command args opts s] Restart
    by (auto simp: fire_def restart_timers_def filter_insert_timer_skip)
qed

lemma timers_ok_fire: "timers_ok s \<Longrightarrow> timers_ok (fire cb s)"
proof (cases cb)
  case ForceKill
  then show "timers_ok s \<Longrightarrow> timers_ok (fire cb s)"
    by (simp add: fire_def timers_ok_def forceKill_frame)
next
  case (Restart command args opts)
  assume ok: "timers_ok s"
  let ?s' = "startTargetApp command args opts s"
  from startTargetApp_frame(4) [of command args opts s]
  have "sorted (map timer_due (timers ?s')) \<and> list_all (\<lambda>t. now s \<le> timer_due t) (timers ?s')"
    using ok by (auto simp: timers_ok_def sorted_insert_timer list_all_iff timer_due_def)
  then show "timers_ok (fire cb s)"
    using Restart by (simp add: fire_def timers_ok_def startTargetApp_frame)
qed

lemma timers_ok_pop:
  assumes "timers_ok s" and "timers s = t # rest"
  shows "timers_ok (s\<lparr>timers := rest, now := max (now s) (timer_due t)\<rparr>)"
    and "max (now s) (timer_due t) = timer_due t"
  using assms by (auto simp: timers_ok_def list_all_iff)

lemma advance_to_props:
  "timers_ok s \<Longrightarrow>
     timers_ok (advance_to T s)
   \<and> now (advance_to T s) = max (now s) T
   \<and> debounceTimer (advance_to T s) = debounceTimer s
   \<and> spawn_times (advance_to T s)
       = spawn_times s @ filter (\<lambda>D. D \<le> T) (map timer_due (restart_timers s))
   \<and> restart_timers (advance_to T s) = filter (\<lambda>t. T < timer_due t) (restart_timers s)
   \<and> (\<not> isRestarting s \<and> filter (\<lambda>D. D \<le> T) (map timer_due (restart_timers s)) = []
        \<longrightarrow> \<not> isRestarting (advance_to T s))"
proof (induction T s rule: advance_to.induct)
  case (1 T s)
  note ok = \<open>timers_ok s\<close>
  show ?case
  proof (cases "timers s")
    case Nil
    then show ?thesis
      using ok by (simp add: advance_to_Nil timers_ok_def restart_timers_def spawn_times_def)
  next
    case (Cons t rest)
    show ?thesis
    proof (cases "timer_due t \<le> T")
      case False
      then have later: "\<forall>u \<in> set (timers s). T < timer_due u"
        using ok Cons by (auto simp: timers_ok_def)
      then have f1: "filter (\<lambda>D. D \<le> T) (map timer_due (restart_timers s)) = []"
        by (auto simp: restart_timers_def filter_empty_conv)
      have f2: "filter (\<lambda>t. T < timer_due t) (restart_timers s) = restart_timers s"
        unfolding restart_timers_def using later by (intro filter_True) simp
      have "advance_to T s = s\<lparr>now := max (now s) T\<rparr>"
        using Cons False by (simp add: advance_to_wait)
      then show ?thesis
        using ok later f1 f2
        by (auto simp: timers_ok_def restart_timers_def spawn_times_def list_all_iff)
    next
      case True
      let ?s1 = "s\<lparr>timers := rest, now := max (now s) (timer_due t)\<rparr>"
      let ?s2 = "fire (timer_cb t) ?s1"
      obtain i due cb where t: "t = (i, due, cb)" by (cases t)
      have adv: "advance_to T s = advance_to T ?s2"
        using Cons True by (rule advance_to_fire)
      have ok1: "timers_ok ?s1" and now1: "max (now s) (timer_due t) = timer_due t"
        using timers_ok_pop [OF ok Cons] by simp_all
      have ok2: "timers_ok ?s2" using ok1 by (rule timers_ok_fire)
      note IH = "1.IH" [OF Cons True ok2]
      have now2: "now ?s2 = timer_due t" by (simp add: fire_frame now1)
      have rt2: "restart_timers ?s2 = filter is_restart rest"
        by (simp add: restart_timers_fire) (simp add: restart_timers_def)
      have rts: "restart_timers s = (if is_restart t then [t] else []) @ filter is_restart rest"
        using Cons by (simp add: restart_timers_def)
      have sp2: "spawn_times ?s2 = spawn_times s @ (if is_restart t then [timer_due t] else [])"
        using spawn_times_fire [of cb ?s1 i due] t now1
        by (simp add: timer_cb_def spawn_times_def)
      have db2: "debounceTimer ?s2 = debounceTimer s" by (simp add: fire_frame)
      have g2: "\<not> is_restart t \<Longrightarrow> \<not> isRestarting ?s2"
        using t fire_frame(3) [of cb ?s1]
        by (cases cb) (simp_all add: is_restart_def timer_cb_def)
      have le: "now s \<le> timer_due t" using now1 by simp
      have "timers_ok (advance_to T ?s2)" using IH by simp
      moreover have "now (advance_to T ?s2) = max (now s) T"
        using IH now2 True le by simp
      moreover have "debounceTimer (advance_to T ?s2) = debounceTimer s"
        using IH db2 by simp
      moreover have "spawn_times (advance_to T ?s2)
          = spawn_times s @ filter (\<lambda>D. D \<le> T) (map timer_due (restart_timers s))"
        using IH sp2 rt2 rts True by simp
      moreover have "restart_timers (advance_to T ?s2)
          = filter (\<lambda>t. T < timer_due t) (restart_timers s)"
        using IH rt2 rts True by simp
      moreover have "\<not> isRestarting s
          \<and> filter (\<lambda>D. D \<le> T) (map timer_due (restart_timers s)) = []
          \<longrightarrow> \<not> isRestarting (advance_to T ?s2)"
      proof (intro impI, elim conjE)
        assume e: "filter (\<lambda>D. D \<le> T) (map timer_due (restart_timers s)) = []"
        then have nr: "\<not> is_restart t" using rts True by (auto split: if_splits)
        then have "filter (\<lambda>D. D \<le> T) (map timer_due (restart_timers ?s2)) = []"
          using e rts rt2 by simp
        with IH g2 [OF nr] show "\<not> isRestarting (advance_to T ?s2)" by blast
      qed
      ultimately show ?thesis unfolding adv by blast
    qed
  qed
qed


lemma handleFileChange_arms:
  assumes g: "\<not> isRestarting s" and ok: "timers_ok s" and rok: "restart_ok s"
    and d: "1 \<le> debounceMs opts" "debounceMs opts \<le> 2147483647"
  shows "armed (debounceMs opts) (handleFileChange filename eventType opts command args s)
       \<and> now (handleFileChange filename eventType opts command args s) = now s
       \<and> spawn_times (handleFileChange filename eventType opts command args s) = spawn_times s"
proof -
  let ?new = "(nextTimer s, now s + debounceMs opts, Restart command args opts)"
  let ?old = "case debounceTimer s of None \<Rightarrow> timers s
                | Some i \<Rightarrow> filter (\<lambda>t. fst t \<noteq> i) (timers s)"
  let ?s' = "handleFileChange filename eventType opts command args s"
  have cl: "clamp_delay (debounceMs opts) = debounceMs opts"
    using d by (simp add: clamp_delay_def)
  have tm: "timers ?s' = insert_timer ?new ?old"
    using g by (simp add: handleFileChange_def setTimeout_def clearTimeout_def cl
        split: option.splits)
  have rest: "now ?s' = now s" "debounceTimer ?s' = Some (nextTimer s)" "\<not> isRestarting ?s'"
    "spawn_times ?s' = spawn_times s"
    using g by (simp_all add: handleFileChange_def setTimeout_def clearTimeout_def
        spawn_times_def split: option.splits)
  have none: "filter is_restart ?old = []"
  proof (cases "debounceTimer s")
    case None
    then show ?thesis
      using rok by (cases "restart_timers s") (simp_all add: restart_ok_def restart_timers_def)
  next
    case (Some i)
    have "\<forall>t \<in> set (timers s). is_restart t \<longrightarrow> fst t = i"
      using rok Some by (fastforce simp: restart_ok_def restart_timers_def list_all_iff)
    then show ?thesis using Some by (auto simp: filter_empty_conv)
  qed
  have new: "is_restart ?new" by (simp add: is_restart_def timer_cb_def)
  have rt: "restart_timers ?s' = [?new]"
    unfolding restart_timers_def tm using new none by (rule filter_insert_timer_only)
  have "sorted (map timer_due ?old)" "list_all (\<lambda>t. now s \<le> timer_due t) ?old"
    using ok by (auto simp: timers_ok_def list_all_iff sorted_filter split: option.splits)
  then have ok': "timers_ok ?s'"
    unfolding timers_ok_def tm rest
    by (auto simp: sorted_insert_timer list_all_iff timer_due_def)
  show ?thesis
    using rt ok' rest by (simp add: armed_def restart_ok_def timer_due_def)
qed

lemma armed_advance:
  assumes a: "armed d s" and u: "now s \<le> u" "u < now s + d"
  shows "timers_ok (advance_to u s) \<and> restart_ok (advance_to u s)
       \<and> \<not> isRestarting (advance_to u s) \<and> now (advance_to u s) = u
       \<and> spawn_times (advance_to u s) = spawn_times s"
proof -
  from a have ok: "timers_ok s" and rok: "restart_ok s" and g: "\<not> isRestarting s"
    and due: "map timer_due (restart_timers s) = [now s + d]"
    by (simp_all add: armed_def)
  note P = advance_to_props [OF ok, of u]
  have e: "filter (\<lambda>D. D \<le> u) (map timer_due (restart_timers s)) = []"
    using due u by simp
  have "restart_ok (advance_to u s)"
    using P rok by (auto simp: restart_ok_def list_all_iff)
  then show ?thesis using P e g u by simp
qed

lemma burst_armed:
  assumes d: "1 \<le> debounceMs opts" "debounceMs opts \<le> 2147483647"
  shows "armed (debounceMs opts) s \<Longrightarrow> burst (debounceMs opts) (now s # ts) \<Longrightarrow>
     armed (debounceMs opts) (deliver_changes opts command args ts s)
   \<and> now (deliver_changes opts command args ts s) = last (now s # ts)
   \<and> spawn_times (deliver_changes opts command args ts s) = spawn_times s"
proof (induction ts arbitrary: s)
  case Nil
  then show ?case by simp
next
  case (Cons u ts)
  let ?s1 = "advance_to u s"
  let ?s2 = "handleFileChange ''file.js'' ''change'' opts command args ?s1"
  from Cons.prems have u: "now s \<le> u" "u < now s + debounceMs opts"
    and b: "burst (debounceMs opts) (u # ts)" by simp_all
  note A = armed_advance [OF Cons.prems(1) u]
  from A have "\<not> isRestarting ?s1" "timers_ok ?s1" "restart_ok ?s1" by simp_all
  note H = handleFileChange_arms [OF this d, of "''file.js''" "''change''" command args]
  from H A have n2: "now ?s2 = u" and sp2: "spawn_times ?s2 = spawn_times s" by simp_all
  from H have a2: "armed (debounceMs opts) ?s2" by simp
  from Cons.IH [OF a2] b n2 sp2 show ?case by simp
qed


lemma armed_fires:
  assumes a: "armed d s" and T: "now s + d \<le> T"
  shows "spawn_times (advance_to T s) = spawn_times s @ [now s + d]
       \<and> timers_ok (advance_to T s) \<and> restart_timers (advance_to T s) = []
       \<and> now (advance_to T s) = T"
proof -
  from a have ok: "timers_ok s" and due: "map timer_due (restart_timers s) = [now s + d]"
    by (simp_all add: armed_def)
  note P = advance_to_props [OF ok, of T]
  have "filter (\<lambda>t. T < timer_due t) (restart_timers s) = []"
    using due T by (cases "restart_timers s") auto
  then show ?thesis using P due T by simp
qed

lemma quiet_advance:
  assumes q: "quiet s"
  shows "timers_ok (advance_to t s) \<and> restart_ok (advance_to t s)
       \<and> \<not> isRestarting (advance_to t s) \<and> now (advance_to t s) = max (now s) t
       \<and> spawn_times (advance_to t s) = spawn_times s"
proof -
  from q have ok: "timers_ok s" and no: "restart_timers s = []" and g: "\<not> isRestarting s"
    by (simp_all add: quiet_def)
  note P = advance_to_props [OF ok, of t]
  then show ?thesis using no g by (simp add: restart_ok_def)
qed

lemma burst_one_restart:
  assumes q: "quiet s" and d: "1 \<le> debounceMs opts" "debounceMs opts \<le> 2147483647"
    and ts: "ts \<noteq> []" "now s \<le> hd ts" "burst (debounceMs opts) ts"
    and T: "last ts + debounceMs opts \<le> T"
  shows "spawn_times (advance_to T (deliver_changes opts command args ts s))
           = spawn_times s @ [last ts + debounceMs opts]"
proof -
  obtain t1 ts' where c: "ts = t1 # ts'" using ts(1) by (cases ts) auto
  let ?s1 = "advance_to t1 s"
  let ?s2 = "handleFileChange ''file.js'' ''change'' opts command args ?s1"
  let ?s3 = "deliver_changes opts command args ts' ?s2"
  note A = quiet_advance [OF q, of t1]
  from A have "\<not> isRestarting ?s1" "timers_ok ?s1" "restart_ok ?s1" by simp_all
  note H = handleFileChange_arms [OF this d, of "''file.js''" "''change''" command args]
  from H A ts(2) c have n2: "now ?s2 = t1" and sp2: "spawn_times ?s2 = spawn_times s"
    by simp_all
  from H have a2: "armed (debounceMs opts) ?s2" by simp
  have b: "burst (debounceMs opts) (now ?s2 # ts')" using ts(3) c n2 by simp
  note B = burst_armed [OF d a2 b, of command args]
  from B n2 c have n3: "now ?s3 = last ts" by simp
  from B have a3: "armed (debounceMs opts) ?s3" by simp
  have "now ?s3 + debounceMs opts \<le> T" using T n3 by simp
  from armed_fires [OF a3 this] B sp2 n3 c show ?thesis by simp
qed

lemma two_events_two_restarts:
  assumes q: "quiet s" and d: "1 \<le> debounceMs opts" "debounceMs opts \<le> 2147483647"
    and t: "now s \<le> t1" "t1 + debounceMs opts < t2" "t2 + debounceMs opts \<le> T"
    and g: "\<not> isRestarting (advance_to t2 (deliver_changes opts command args [t1] s))"
  shows "spawn_times (advance_to T (deliver_changes opts command args [t1, t2] s))
           = spawn_times s @ [t1 + debounceMs opts, t2 + debounceMs opts]"
proof -
  let ?s1 = "advance_to t1 s"
  let ?s2 = "handleFileChange ''file.js'' ''change'' opts command args ?s1"
  let ?s3 = "advance_to t2 ?s2"
  let ?s4 = "handleFileChange ''file.js'' ''change'' opts command args ?s3"
  note A = quiet_advance [OF q, of t1]
  from A have "\<not> isRestarting ?s1" "timers_ok ?s1" "restart_ok ?s1" by simp_all
  note H = handleFileChange_arms [OF this d, of "''file.js''" "''change''" command args]
  from H A t(1) have n2: "now ?s2 = t1" and sp2: "spawn_times ?s2 = spawn_times s"
    by simp_all
  from H have a2: "armed (debounceMs opts) ?s2" by simp
  have "now ?s2 + debounceMs opts \<le> t2" using t(2) n2 by simp
  note F = armed_fires [OF a2 this]
  from g have g3: "\<not> isRestarting ?s3" by simp
  from F have ok3: "timers_ok ?s3" and rok3: "restart_ok ?s3"
    by (simp_all add: restart_ok_def)
  note H' = handleFileChange_arms [OF g3 ok3 rok3 d, of "''file.js''" "''change''" command args]
  from H' have a4: "armed (debounceMs opts) ?s4" by simp
  from H' F have n4: "now ?s4 = t2" by simp
  have "now ?s4 + debounceMs opts \<le> T" using t(3) n4 by simp
  from armed_fires [OF a4 this] H' F sp2 n2 n4 show ?thesis by simp
qed

lemma quiet_initial_state: "quiet initial_state"
  by (simp add: quiet_def timers_ok_def restart_timers_def initial_state_def)

section \<open>Debounce coalescing\<close>

text \<open>
  C3, as the claim states it, fails. The module hands \<open>debounceMs\<close> to \<open>setTimeout\<close>
  unchecked, and \<open>setTimeout\<close> takes a delay above 2147483647 as 1 ms. With \<open>debounceMs\<close> = 3000000000, events at 0 and
  at 1000 ms are one burst by the claim, and the child is restarted twice, at 1 and at
  1001 ms.
\<close>

theorem debounce_delay_out_of_range_counterexample:
  "burst 3000000000 [0, 1000]
   \<and> spawn_times (advance_to 2000
        (deliver_changes (DEFAULT_CONFIG\<lparr>debounceMs := 3000000000\<rparr>) ''node'' [''server.js'']
           [0, 1000] initial_state)) = [1, 1001]"
  by (simp add: advance_to.simps supervisor_defs initial_state_def spawn_times_def Let_def)

text \<open>
  C3, amended. Start from a state in which no restart is pending or in progress, with a
  debounce interval that \<open>setTimeout\<close> takes as given (1 to 2147483647 ms). (1) Change events
  that reach \<open>handleFileChange\<close> at the times \<open>ts\<close>, each less than \<open>debounceMs\<close> after the one
  before, cause exactly one restart, and it happens \<open>debounceMs\<close> after the last event: the
  list of spawn times grows by that one entry, however long the clock runs on. The
  restart guard stays false during the burst, since nothing sets it before the restart.
  (2) Two events more than \<open>debounceMs\<close> apart, the guard being false when the second one
  arrives, cause two restarts, each \<open>debounceMs\<close> after its event.
\<close>

theorem debounce_coalescing:
  assumes "quiet s" and "1 \<le> debounceMs opts" and "debounceMs opts \<le> 2147483647"
  shows "(ts \<noteq> [] \<and> now s \<le> hd ts \<and> burst (debounceMs opts) ts
            \<and> last ts + debounceMs opts \<le> T
          \<longrightarrow> spawn_times (advance_to T (deliver_changes opts command args ts s))
                = spawn_times s @ [last ts + debounceMs opts])
       \<and> (now s \<le> t1 \<and> t1 + debounceMs opts < t2 \<and> t2 + debounceMs opts \<le> T
            \<and> \<not> isRestarting (advance_to t2 (deliver_changes opts command args [t1] s))
          \<longrightarrow> spawn_times (advance_to T (deliver_changes opts command args [t1, t2] s))
                = spawn_times s @ [t1 + debounceMs opts, t2 + debounceMs opts])"
  using burst_one_restart [OF assms] two_events_two_restarts [OF assms] by blast

theorem debounce_coalescing_witness:
  "spawn_times (advance_to 190
      (deliver_changes (DEFAULT_CONFIG\<lparr>debounceMs := 100\<rparr>) ''node'' [''server.js'']
         [0, 50, 90] initial_state)) = [190]
   \<and> spawn_times (advance_to 300
      (deliver_changes (DEFAULT_CONFIG\<lparr>debounceMs := 100\<rparr>) ''node'' [''server.js'']
         [0, 200] initial_state)) = [100, 300]"
proof -
  let ?o = "DEFAULT_CONFIG\<lparr>debounceMs := 100\<rparr>"
  have d: "1 \<le> debounceMs ?o" "debounceMs ?o \<le> 2147483647" by simp_all
  have g: "\<not> isRestarting (advance_to 200
      (deliver_changes ?o ''node'' [''server.js''] [0] initial_state))"
    by (simp add: advance_to.simps supervisor_defs initial_state_def Let_def)
  from debounce_coalescing [OF quiet_initial_state d, where ts = "[0, 50, 90]" and T = 190
      and command = "''node''" and args = "[''server.js'']"]
  have "spawn_times (advance_to 190 (deliver_changes ?o ''node'' [''server.js''] [0, 50, 90] initial_state)) = [190]"
    by (simp add: initial_state_def spawn_times_def)
  moreover
  from debounce_coalescing [OF quiet_initial_state d, where T = 300 and ?t1.0 = 0 and ?t2.0 = 200
      and command = "''node''" and args = "[''server.js'']"] g
  have "spawn_times (advance_to 300 (deliver_changes ?o ''node'' [''server.js''] [0, 200] initial_state)) = [100, 300]"
    by (simp add: initial_state_def spawn_times_def)
  ultimately show ?thesis by simp
qed

text \<open>
  The guard at work: a child is running, and events arrive at 0 and at 200 ms with a
  debounce interval of 100 ms. The restart at 100 ms stops the running child and sets
  the guard for 5000 ms, so the event at 200 ms is dropped and no second restart follows.
  (The spawn at time 0 is the initial start.)
\<close>

theorem change_dropped_while_restarting:
  "spawn_times (advance_to 6000
      (deliver_changes (DEFAULT_CONFIG\<lparr>debounceMs := 100\<rparr>) ''node'' [''server.js''] [0, 200]
         (startTargetApp ''node'' [''server.js''] DEFAULT_CONFIG initial_state))) = [0, 100]"
  by (simp add: advance_to.simps supervisor_defs initial_state_def spawn_times_def Let_def)

section \<open>Stopping and replacing the child\<close>

text \<open>
  C10. \<open>killTargetApp\<close> with no child referenced (\<open>childProcess\<close> is null) does nothing:
  the state is returned as it was, so the restart guard is unchanged, no signal is sent
  and no timer is armed.
\<close>

theorem killTargetApp_without_child:
  "childProcess s = None \<Longrightarrow>
     killTargetApp s = s
   \<and> isRestarting (killTargetApp s) = isRestarting s
   \<and> trace (killTargetApp s) = trace s
   \<and> timers (killTargetApp s) = timers s"
  by (simp add: killTargetApp_def)

theorem killTargetApp_without_child_witness:
  "childProcess initial_state = None \<and> killTargetApp initial_state = initial_state
   \<and> isRestarting (killTargetApp initial_state) = False
   \<and> trace (killTargetApp initial_state) = []
   \<and> timers (killTargetApp initial_state) = []"
  using killTargetApp_without_child [of initial_state] by (simp add: initial_state_def)

text \<open>
  C1, as the claim states it, fails: \<open>startTargetApp\<close> does not wait for the old child to
  end. After a second start, with no exit reported yet, two children are running.
\<close>

theorem startTargetApp_overlap_counterexample:
  "\<not> length (running_children
        (startTargetApp ''node'' [''server.js''] DEFAULT_CONFIG
          (startTargetApp ''node'' [''server.js''] DEFAULT_CONFIG initial_state))) \<le> 1"
  by (simp add: running_children_def supervisor_defs initial_state_def Let_def upt_rec)

text \<open>
  C1, amended. A call of \<open>startTargetApp\<close> while a running child is referenced sends SIGTERM
  to the old child and arms the 5000 ms timer, and only then spawns the new child; it does
  not wait for the old child to end. Right after the call the old child is still running
  beside the new one, the restart guard is set, and \<open>childProcess\<close> refers to the new child
  alone.
\<close>

theorem startTargetApp_replaces_child:
  assumes "childProcess s = Some c" and "c < length (children s)" and "running (children s ! c)"
  shows "trace (startTargetApp command args opts s) =
           trace s @ [(now s, Signalled c SIGTERM), (now s, Spawned (length (children s)) command args)]
       \<and> childProcess (startTargetApp command args opts s) = Some (length (children s))
       \<and> running (children (startTargetApp command args opts s) ! c)
       \<and> running (children (startTargetApp command args opts s) ! length (children s))
       \<and> isRestarting (startTargetApp command args opts s)
       \<and> (nextTimer s, now s + 5000, ForceKill) \<in> set (timers (startTargetApp command args opts s))"
  using assms by (simp add: supervisor_defs Let_def nth_append)

theorem startTargetApp_replaces_child_witness:
  "trace (startTargetApp ''node'' [''server.js''] DEFAULT_CONFIG
      (startTargetApp ''node'' [''server.js''] DEFAULT_CONFIG initial_state))
     = [(0, Spawned 0 ''node'' [''server.js'']), (0, Signalled 0 SIGTERM),
        (0, Spawned 1 ''node'' [''server.js''])]
   \<and> childProcess (startTargetApp ''node'' [''server.js''] DEFAULT_CONFIG
      (startTargetApp ''node'' [''server.js''] DEFAULT_CONFIG initial_state)) = Some 1"
  using startTargetApp_replaces_child [of "startTargetApp ''node'' [''server.js''] DEFAULT_CONFIG initial_state"
      0 "''node''" "[''server.js'']" DEFAULT_CONFIG]
  by (simp add: supervisor_defs initial_state_def Let_def)

text \<open>
  C2, as the claim states it, fails: the child is stopped at time 0 and ends at 1000 ms,
  and after its \<open>exit\<close> listener has run the guard is still set and the 5000 ms timer is
  still pending. The \<open>exit\<close> listener assigns \<open>childProcess\<close> only, and the timer is never
  kept in a variable that \<open>clearTimeout\<close> could be given.
\<close>

theorem exit_before_fallback_counterexample:
  "isRestarting (child_exited 0 None (Some SIGTERM)
      (advance_to 1000 (killTargetApp (startTargetApp ''node'' [''server.js''] DEFAULT_CONFIG initial_state))))
   \<and> timers (child_exited 0 None (Some SIGTERM)
      (advance_to 1000 (killTargetApp (startTargetApp ''node'' [''server.js''] DEFAULT_CONFIG initial_state))))
     = [(0, 5000, ForceKill)]"
  by (simp add: advance_to.simps supervisor_defs initial_state_def Let_def)

text \<open>
  The two ways a stop sequence starts, on a running referenced child with no timer
  pending, and what follows from the state it leaves when the child ends before the
  timer fires.
\<close>

lemma stop_sequence_exit:
  assumes k: "isRestarting k" "timers k = [(i, now k + 5000, ForceKill)]"
      "c < length (children k)" "running (children k ! c)"
    and t: "now k \<le> t" "t < now k + 5000" and T: "now k + 5000 \<le> T"
  shows "isRestarting (child_exited c code sig (advance_to t k))
       \<and> timers (child_exited c code sig (advance_to t k)) = [(i, now k + 5000, ForceKill)]
       \<and> childProcess (child_exited c code sig (advance_to t k)) = None
       \<and> \<not> isRestarting (advance_to T (child_exited c code sig (advance_to t k)))
       \<and> timers (advance_to T (child_exited c code sig (advance_to t k))) = []
       \<and> trace (advance_to T (child_exited c code sig (advance_to t k))) = trace k"
proof -
  define E where "E = k\<lparr>now := t,
                  children := (children k)[c := (children k ! c)\<lparr>running := False\<rparr>],
                  childProcess := None\<rparr>"
  have a: "advance_to t k = k\<lparr>now := t\<rparr>"
    using t k by (subst advance_to.simps) (simp add: timer_due_def max_def)
  have e: "child_exited c code sig (k\<lparr>now := t\<rparr>) = E"
    using k by (simp add: E_def child_exited_def on_exit_def)
  have f1: "advance_to T E
      = advance_to T (E\<lparr>timers := [], now := now k + 5000, isRestarting := False\<rparr>)"
    using t T k
    by (subst advance_to.simps)
       (simp add: E_def timer_due_def timer_cb_def fire_def forceKill_def max_def)
  have f2: "advance_to T (E\<lparr>timers := [], now := now k + 5000, isRestarting := False\<rparr>)
      = E\<lparr>timers := [], now := T, isRestarting := False\<rparr>"
    using T by (subst advance_to.simps) (simp add: max_def)
  show ?thesis
    unfolding a e f1 f2 using k by (simp add: E_def)
qed

lemma stop_sequence_starts:
  assumes c: "childProcess s = Some c" "c < length (children s)" "running (children s ! c)"
    and idle: "timers s = []"
  shows "isRestarting (killTargetApp s)"
    "timers (killTargetApp s) = [(nextTimer s, now s + 5000, ForceKill)]"
    "now (killTargetApp s) = now s"
    "c < length (children (killTargetApp s))" "running (children (killTargetApp s) ! c)"
    "trace (killTargetApp s) = trace s @ [(now s, Signalled c SIGTERM)]"
    "isRestarting (startTargetApp command args opts s)"
    "timers (startTargetApp command args opts s) = [(nextTimer s, now s + 5000, ForceKill)]"
    "now (startTargetApp command args opts s) = now s"
    "c < length (children (startTargetApp command args opts s))"
    "running (children (startTargetApp command args opts s) ! c)"
    "trace (startTargetApp command args opts s)
       = trace s @ [(now s, Signalled c SIGTERM),
                    (now s, Spawned (length (children s)) command args)]"
  using c idle by (simp_all add: supervisor_defs Let_def nth_append)

text \<open>
  C2, amended. A stop sequence starts on a running referenced child at a moment when no
  timer is pending, either by \<open>killTargetApp\<close> called alone or as the first step of a restart
  by \<open>startTargetApp\<close>, and the stopped child ends before the 5000 ms timer fires. Then the
  \<open>exit\<close> listener clears the child reference only: the timer stays armed and the guard
  stays true. The guard is cleared when the timer fires, 5000 ms after the stop request,
  and the timer sends no signal then: the log is as the stop request left it, with
  SIGTERM as its only signal.
\<close>

theorem exit_before_fallback:
  assumes c: "childProcess s = Some c" "c < length (children s)" "running (children s ! c)"
    and idle: "timers s = []"
    and t: "now s \<le> t" "t < now s + 5000" and T: "now s + 5000 \<le> T"
  shows "(\<forall>k \<in> {killTargetApp s, startTargetApp command args opts s}.
           isRestarting (child_exited c code sig (advance_to t k))
         \<and> timers (child_exited c code sig (advance_to t k))
             = [(nextTimer s, now s + 5000, ForceKill)]
         \<and> childProcess (child_exited c code sig (advance_to t k)) = None
         \<and> \<not> isRestarting (advance_to T (child_exited c code sig (advance_to t k)))
         \<and> timers (advance_to T (child_exited c code sig (advance_to t k))) = []
         \<and> trace (advance_to T (child_exited c code sig (advance_to t k))) = trace k)
       \<and> trace (killTargetApp s) = trace s @ [(now s, Signalled c SIGTERM)]
       \<and> trace (startTargetApp command args opts s)
           = trace s @ [(now s, Signalled c SIGTERM),
                        (now s, Spawned (length (children s)) command args)]"
proof -
  note S = stop_sequence_starts [OF c idle]
  have 1: "now (killTargetApp s) \<le> t" "t < now (killTargetApp s) + 5000"
    "now (killTargetApp s) + 5000 \<le> T"
    "timers (killTargetApp s) = [(nextTimer s, now (killTargetApp s) + 5000, ForceKill)]"
    using t T S by simp_all
  have 2: "now (startTargetApp command args opts s) \<le> t"
    "t < now (startTargetApp command args opts s) + 5000"
    "now (startTargetApp command args opts s) + 5000 \<le> T"
    "timers (startTargetApp command args opts s)
       = [(nextTimer s, now (startTargetApp command args opts s) + 5000, ForceKill)]"
    using t T S by simp_all
  from stop_sequence_exit [OF S(1) 1(4) S(4,5) 1(1-3), where code = code and sig = sig]
    stop_sequence_exit [OF S(7) 2(4) S(10,11) 2(1-3), where code = code and sig = sig] S
  show ?thesis by simp
qed

theorem exit_before_fallback_witness:
  "isRestarting (child_exited 0 (Some 0) None
      (advance_to 4000 (killTargetApp (startTargetApp ''node'' [''server.js''] DEFAULT_CONFIG initial_state))))
   \<and> \<not> isRestarting (advance_to 5000 (child_exited 0 (Some 0) None
      (advance_to 4000 (killTargetApp (startTargetApp ''node'' [''server.js''] DEFAULT_CONFIG initial_state)))))
   \<and> trace (advance_to 5000 (child_exited 0 (Some 0) None
      (advance_to 4000 (killTargetApp (startTargetApp ''node'' [''server.js''] DEFAULT_CONFIG initial_state)))))
     = [(0, Spawned 0 ''node'' [''server.js'']), (0, Signalled 0 SIGTERM)]
   \<and> isRestarting (child_exited 0 (Some 0) None
      (advance_to 4000 (startTargetApp ''node'' [''server.js''] DEFAULT_CONFIG
         (startTargetApp ''node'' [''server.js''] DEFAULT_CONFIG initial_state))))
   \<and> \<not> isRestarting (advance_to 5000 (child_exited 0 (Some 0) None
      (advance_to 4000 (startTargetApp ''node'' [''server.js''] DEFAULT_CONFIG
         (startTargetApp ''node'' [''server.js''] DEFAULT_CONFIG initial_state)))))
   \<and> trace (advance_to 5000 (child_exited 0 (Some 0) None
      (advance_to 4000 (startTargetApp ''node'' [''server.js''] DEFAULT_CONFIG
         (startTargetApp ''node'' [''server.js''] DEFAULT_CONFIG initial_state)))))
     = [(0, Spawned 0 ''node'' [''server.js'']), (0, Signalled 0 SIGTERM),
        (0, Spawned 1 ''node'' [''server.js''])]"
  using exit_before_fallback [of "startTargetApp ''node'' [''server.js''] DEFAULT_CONFIG initial_state"
      0 4000 5000 "''node''" "[''server.js'']" DEFAULT_CONFIG "Some 0" None]
  by (simp add: startTargetApp_def killTargetApp_def initial_state_def Let_def
      setTimeout_def child_kill_def clamp_delay_def)

text \<open>
  C4, evaluated where the code fails the claim. (1) A running child is stopped with
  \<open>killTargetApp\<close> and never ends: when the 5000 ms timer fires, the \<open>killed\<close> property of the
  child is already true, because SIGTERM was delivered, so the test
  \<^verbatim>\<open>!childProcess.killed\<close> fails and no SIGKILL is sent; the child keeps running.
  (2) The same inside a restart: the timer finds the replacement in \<open>childProcess\<close>, sends
  SIGKILL to it and drops the reference, and the old child keeps running. (3) When the
  child ends at 4000 ms, no SIGKILL is sent, as the claim says.
\<close>

theorem force_kill_misses_stopped_child:
  "trace (advance_to 5000
      (killTargetApp (startTargetApp ''node'' [''server.js''] DEFAULT_CONFIG initial_state)))
     = [(0, Spawned 0 ''node'' [''server.js'']), (0, Signalled 0 SIGTERM)]
   \<and> running_children (advance_to 5000
      (killTargetApp (startTargetApp ''node'' [''server.js''] DEFAULT_CONFIG initial_state))) = [0]
   \<and> trace (advance_to 5000
      (startTargetApp ''node'' [''server.js''] DEFAULT_CONFIG
        (startTargetApp ''node'' [''server.js''] DEFAULT_CONFIG initial_state)))
     = [(0, Spawned 0 ''node'' [''server.js'']), (0, Signalled 0 SIGTERM),
        (0, Spawned 1 ''node'' [''server.js'']), (5000, Signalled 1 SIGKILL)]
   \<and> childProcess (advance_to 5000
      (startTargetApp ''node'' [''server.js''] DEFAULT_CONFIG
        (startTargetApp ''node'' [''server.js''] DEFAULT_CONFIG initial_state))) = None
   \<and> trace (advance_to 5000 (child_exited 0 None (Some SIGTERM) (advance_to 4000
      (killTargetApp (startTargetApp ''node'' [''server.js''] DEFAULT_CONFIG initial_state)))))
     = [(0, Spawned 0 ''node'' [''server.js'']), (0, Signalled 0 SIGTERM)]"
  by (simp add: advance_to.simps running_children_def supervisor_defs initial_state_def
      Let_def upt_rec)

section \<open>The watcher callback on an ignored path\<close>

text \<open>
  C6, evaluated where the code fails the claim. The watcher of \<open>/proj\<close> reports a change of
  \<open>app.log\<close>, which the default pattern \<open>*.log\<close> ignores. The callback does not return: it
  ends with a ReferenceError, thrown by the statement \<^verbatim>\<open>returns;\<close> in the branch of an
  ignored path. The debounce controller is not reached.
\<close>

theorem watch_callback_ignored_path_throws:
  "watch_callback rx join_plain ''/proj'' ''/proj'' DEFAULT_CONFIG ''node'' [''server.js'']
      ''change'' (Some ''app.log'') initial_state = Inl ReferenceError"
  by (simp add: watch_callback_def join_plain_def DEFAULT_CONFIG_def pattern_matches_def
      RegExp_test_def RegExp_parse_def syntax_char_def Let_def)

section \<open>Enumerating the directories to watch\<close>

text \<open>
  What a traversal adds to \<open>directories\<close> comes after what was there, and each path added
  was checked against the patterns and found not ignored.
\<close>

lemma traverse_appends:
  "\<exists>ds. traverse rx join rootPath pats dirPath sub dirs = dirs @ ds
        \<and> list_all (\<lambda>p. shouldIgnore rx (relativePath rootPath p) pats = Inr False) ds"
  "\<exists>ds. snd (traverse_entries rx join rootPath pats dirPath es dirs) = dirs @ ds
        \<and> list_all (\<lambda>p. shouldIgnore rx (relativePath rootPath p) pats = Inr False) ds"
proof (induction rx join rootPath pats dirPath sub dirs
         and rx join rootPath pats dirPath es dirs rule: traverse_traverse_entries.induct)
  case (1 rx join rootPath pats dirPath dirs)
  then show ?case by simp
next
  case (2 rx join rootPath pats dirPath entries dirs)
  then show ?case by simp
next
  case (3 rx join rootPath pats dirPath dirs)
  then show ?case by simp
next
  case (4 rx join rootPath pats dirPath name es dirs)
  then show ?case by simp
next
  case (5 rx join rootPath pats dirPath name sub es dirs)
  let ?full = "join dirPath name"
  let ?ok = "\<lambda>p. shouldIgnore rx (relativePath rootPath p) pats = Inr False"
  show ?case
  proof (cases "shouldIgnore rx (relativePath rootPath ?full) pats")
    case (Inl e)
    then show ?thesis by simp
  next
    case (Inr b)
    show ?thesis
    proof (cases b)
      case True
      with Inr 5(1) show ?thesis by simp
    next
      case False
      with Inr have chk: "shouldIgnore rx (relativePath rootPath ?full) pats = Inr False" by simp
      from 5(2) [OF chk refl] obtain ds1 where
        d1: "traverse rx join rootPath pats ?full sub (dirs @ [?full]) = (dirs @ [?full]) @ ds1"
        and o1: "list_all ?ok ds1" by blast
      from 5(3) [OF chk refl] obtain ds2 where
        d2: "snd (traverse_entries rx join rootPath pats dirPath es
                (traverse rx join rootPath pats ?full sub (dirs @ [?full])))
             = traverse rx join rootPath pats ?full sub (dirs @ [?full]) @ ds2"
        and o2: "list_all ?ok ds2" by blast
      have "snd (traverse_entries rx join rootPath pats dirPath ((name, DirEntry sub) # es) dirs)
              = dirs @ (?full # ds1 @ ds2)"
        using chk d1 d2 by simp
      moreover have "list_all ?ok (?full # ds1 @ ds2)" using chk o1 o2 by simp
      ultimately show ?thesis by blast
    qed
  qed
qed

text \<open>
  The path the source tests is the root-relative one: for a full path made of the root,
  a separator and \<open>r\<close>, the two replacements give back \<open>r\<close>.
\<close>

lemma remove_first_prefix: "remove_first pat (pat @ s) = s"
proof (cases "pat @ s")
  case Nil
  then show ?thesis by simp
next
  case (Cons a l)
  have "prefix pat (a # l)" unfolding Cons [symmetric] by simp
  then have "remove_first pat (a # l) = drop (length pat) (a # l)" by simp
  then show ?thesis unfolding Cons [symmetric] by simp
qed

lemma relativePath_join_plain: "relativePath rootPath (join_plain rootPath r) = r"
  by (simp add: relativePath_def join_plain_def remove_first_prefix)

lemma join_plain_dir_at:
  "join_plain (dir_at rootPath rel) name = join_plain rootPath (rel_below rel name)"
  by (cases rel) (simp_all add: join_plain_def)

lemma dir_at_Some: "dir_at rootPath (Some r) = join_plain rootPath r"
  by (simp add: join_plain_def)

text \<open>
  When no pattern throws, the walk of the source adds, below any directory, the full
  paths of exactly the directories that the specification's walk lists, in its order.
\<close>

lemma traverse_spec_walk:
  assumes nothrow: "\<forall>q e. shouldIgnore rx q pats \<noteq> Inl e"
  shows "\<forall>dirs. traverse rx join_plain rootPath pats (dir_at rootPath rel) sub dirs
           = dirs @ map (join_plain rootPath)
               (spec_walk (\<lambda>q. shouldIgnore rx q pats = Inr True) rel sub)"
    and "\<forall>dirs. traverse_entries rx join_plain rootPath pats (dir_at rootPath rel) es dirs
           = (None, dirs @ map (join_plain rootPath)
               (spec_walk_entries (\<lambda>q. shouldIgnore rx q pats = Inr True) rel es))"
proof (induction "\<lambda>q. shouldIgnore rx q pats = Inr True" rel sub
         and "\<lambda>q. shouldIgnore rx q pats = Inr True" rel es
       rule: spec_walk_spec_walk_entries.induct)
  case (1 rel)
  then show ?case by simp
next
  case (2 rel es)
  then show ?case by simp
next
  case (3 rel)
  then show ?case by simp
next
  case (4 rel name es)
  then show ?case by simp
next
  case (5 rel name sub es)
  let ?r = "rel_below rel name"
  note full = join_plain_dir_at [of rootPath rel name]
  note chk = relativePath_join_plain [of rootPath ?r]
  show ?case
  proof (cases "shouldIgnore rx ?r pats = Inr True")
    case True
    then show ?thesis using 5(1) by (simp add: full chk)
  next
    case False
    with nothrow have f: "shouldIgnore rx ?r pats = Inr False"
      by (cases "shouldIgnore rx ?r pats") auto
    from 5(2) [OF False] have sub:
      "\<And>dirs. traverse rx join_plain rootPath pats (join_plain rootPath ?r) sub dirs
           = dirs @ map (join_plain rootPath)
               (spec_walk (\<lambda>q. shouldIgnore rx q pats = Inr True) (Some ?r) sub)"
      by (simp add: dir_at_Some del: dir_at.simps)
    show ?thesis
      using 5(3) [OF False] f False by (simp add: full chk sub)
  qed
qed

lemma scenario_patterns_never_throw:
  "\<forall>q e. shouldIgnore rx q [''node_modules/**'', ''*.log''] \<noteq> Inl e"
  by (auto simp: pattern_matches_def RegExp_test_def RegExp_parse_def syntax_char_def
      split: bool.splits)

text \<open>
  C8. (1) \<open>getWatchDirectories\<close> returns a list that starts with the root, for every tree,
  pattern list, \<open>path.join\<close> and regular-expression engine: every exception raised during
  the walk is caught by the \<open>traverse\<close> call it was raised in. Every other path of the list
  was found not ignored, relative to the root. (2) A subdirectory whose root-relative
  path is ignored is skipped by the loop as if the entry were not there: whatever lies
  below it has no effect and its path is not added. (3) A directory that cannot be read
  adds nothing, and (4) the loop over its parent goes on with the siblings after it. The
  loop \<open>traverse_entries\<close> runs for each directory visited, so (2) to (4) hold at every
  depth. (5) The path tested against the patterns is the root-relative path: for the
  full path of \<open>r\<close> below the root it is \<open>r\<close>. (6) With \<open>path.join\<close> putting a separator between
  its arguments, and patterns none of which throws, the result is the root followed by
  the full paths of the directories that the specification's walk lists: every
  directory of the tree reached through directories that are readable and not ignored,
  unless its own root-relative path is ignored.
\<close>

theorem getWatchDirectories_enumerates:
  "(\<exists>ds. getWatchDirectories rx join fs rootPath pats = rootPath # ds
         \<and> list_all (\<lambda>p. shouldIgnore rx (relativePath rootPath p) pats = Inr False) ds)
   \<and> (shouldIgnore rx (relativePath rootPath (join dirPath name)) pats = Inr True \<longrightarrow>
        traverse_entries rx join rootPath pats dirPath ((name, DirEntry sub) # es) dirs
          = traverse_entries rx join rootPath pats dirPath es dirs)
   \<and> traverse rx join rootPath pats dirPath None dirs = dirs
   \<and> (shouldIgnore rx (relativePath rootPath (join dirPath' name')) pats = Inr False \<longrightarrow>
        traverse_entries rx join rootPath pats dirPath' ((name', DirEntry None) # es') dirs'
          = traverse_entries rx join rootPath pats dirPath' es' (dirs' @ [join dirPath' name']))
   \<and> relativePath rootPath (join_plain rootPath r) = r
   \<and> ((\<forall>q e. shouldIgnore rx q pats \<noteq> Inl e) \<longrightarrow>
        getWatchDirectories rx join_plain fs rootPath pats
          = rootPath # map (join_plain rootPath)
              (spec_walk (\<lambda>q. shouldIgnore rx q pats = Inr True) None fs))"
  using traverse_appends(1) [of rx join rootPath pats rootPath fs "[rootPath]"]
    traverse_spec_walk(1) [of rx pats rootPath None fs]
  by (auto simp: getWatchDirectories_def relativePath_join_plain)

theorem getWatchDirectories_enumerates_witness:
  "getWatchDirectories (\<lambda>src s. Inl SyntaxError) join_plain
      (Some [(''src'', DirEntry (Some [(''lib'', DirEntry None), (''util'', DirEntry (Some []))])),
             (''node_modules'', DirEntry (Some [(''a'', DirEntry (Some [(''b'', DirEntry (Some []))]))])),
             (''x.js'', FileEntry),
             (''test'', DirEntry (Some []))])
      ''/proj'' [''node_modules/**'', ''*.log'']
     = [''/proj'', ''/proj/src'', ''/proj/src/lib'', ''/proj/src/util'', ''/proj/node_modules'',
        ''/proj/test'']
   \<and> shouldIgnore (\<lambda>src s. Inl SyntaxError)
        (relativePath ''/proj'' (join_plain ''/proj/node_modules'' ''a''))
        [''node_modules/**'', ''*.log''] = Inr True
   \<and> traverse_entries (\<lambda>src s. Inl SyntaxError) join_plain ''/proj'' [''node_modules/**'', ''*.log'']
        ''/proj/node_modules'' [(''a'', DirEntry (Some [(''b'', DirEntry (Some []))]))]
        [''/proj'', ''/proj/node_modules'']
     = (None, [''/proj'', ''/proj/node_modules''])
   \<and> shouldIgnore (\<lambda>src s. Inl SyntaxError)
        (relativePath ''/proj'' (join_plain ''/proj/src'' ''lib''))
        [''node_modules/**'', ''*.log''] = Inr False
   \<and> traverse_entries (\<lambda>src s. Inl SyntaxError) join_plain ''/proj'' [''node_modules/**'', ''*.log'']
        ''/proj/src'' [(''lib'', DirEntry None), (''util'', DirEntry (Some []))]
        [''/proj'', ''/proj/src'']
     = (None, [''/proj'', ''/proj/src'', ''/proj/src/lib'', ''/proj/src/util''])
   \<and> relativePath ''/proj'' ''/proj/node_modules/a'' = ''node_modules/a''
   \<and> (\<forall>q e. shouldIgnore (\<lambda>src s. Inl SyntaxError) q [''node_modules/**'', ''*.log''] \<noteq> Inl e)
   \<and> spec_walk (\<lambda>q. shouldIgnore (\<lambda>src s. Inl SyntaxError) q [''node_modules/**'', ''*.log''] = Inr True)
        None
        (Some [(''src'', DirEntry (Some [(''lib'', DirEntry None), (''util'', DirEntry (Some []))])),
               (''node_modules'', DirEntry (Some [(''a'', DirEntry (Some [(''b'', DirEntry (Some []))]))])),
               (''x.js'', FileEntry),
               (''test'', DirEntry (Some []))])
     = [''src'', ''src/lib'', ''src/util'', ''node_modules'', ''test'']"
  using getWatchDirectories_enumerates [of "\<lambda>src s. Inl SyntaxError" join_plain
      "Some [(''src'', DirEntry (Some [(''lib'', DirEntry None), (''util'', DirEntry (Some []))])),
             (''node_modules'', DirEntry (Some [(''a'', DirEntry (Some [(''b'', DirEntry (Some []))]))])),
             (''x.js'', FileEntry),
             (''test'', DirEntry (Some []))]"
      "''/proj''" "[''node_modules/**'', ''*.log'']" "''/proj/node_modules''" "''a''"
      "Some [(''b'', DirEntry (Some []))]" "[]" "[''/proj'', ''/proj/node_modules'']"
      "''/proj/src''" "''lib''" "[(''util'', DirEntry (Some []))]" "[''/proj'', ''/proj/src'']"
      "''node_modules/a''"]
    scenario_patterns_never_throw [of "\<lambda>src s. Inl SyntaxError"]
  by (simp add: getWatchDirectories_def join_plain_def relativePath_def pattern_matches_def
      RegExp_test_def RegExp_parse_def syntax_char_def)

end
